theory Spec2Isabelle
  imports Complex_Main "HOL-Library.Product_Lexorder"
begin

section \<open>Viber: change detection and shadow diff engine\<close>

text \<open>
  A shallow embedding of \<^verbatim>\<open>viber.py\<close>: the shadow copy manager, the change database,
  and the file change handler with its filter, its line diff and its two event paths.
  Python strings are lists of code points, Python integers are \<open>int\<close>, an exception is
  a value of type \<open>exn\<close>, and the mutable objects (the filesystem, the shadow directory,
  the database table, the handler's \<open>processing\<close> set) are fields of one state record
  that every operation takes and returns.
\<close>

subsection \<open>Strings\<close>

text \<open>
  A Python \<^verbatim>\<open>str\<close> is a sequence of Unicode code points; \<open>py\<close> turns a literal
  into that form, so \<open>py ''a''\<close> is \<open>[97]\<close>.
\<close>

type_synonym pystr = "nat list"

definition py :: "string \<Rightarrow> pystr" where
  "py s = map of_char s"

definition startswith :: "pystr \<Rightarrow> pystr \<Rightarrow> bool" where
  "startswith s pre = (take (length pre) s = pre)"

text \<open>
  \<^verbatim>\<open>str.splitlines(keepends=True)\<close>: a line ends at LF, VT, FF, CR, CR LF (one
  boundary), FS, GS, RS, NEL, LS or PS; every line keeps its terminator and a last
  line without terminator is kept when it is not empty.
\<close>

definition is_linebreak :: "nat \<Rightarrow> bool" where
  "is_linebreak c = (c \<in> {10, 11, 12, 13, 28, 29, 30, 133, 8232, 8233})"

fun splitlines_from :: "pystr \<Rightarrow> pystr \<Rightarrow> pystr list" where
  "splitlines_from cur [] = (if cur = [] then [] else [cur])"
| "splitlines_from cur [c] = [cur @ [c]]"
| "splitlines_from cur (c # d # cs) =
     (if c = 13 \<and> d = 10 then (cur @ [c, d]) # splitlines_from [] cs
      else if is_linebreak c then (cur @ [c]) # splitlines_from [] (d # cs)
      else splitlines_from (cur @ [c]) (d # cs))"

definition splitlines :: "pystr \<Rightarrow> pystr list" where
  "splitlines s = splitlines_from [] s"

text \<open>Decimal rendering of an integer, as \<^verbatim>\<open>str(n)\<close> and an f-string field do.\<close>

fun str_nat :: "nat \<Rightarrow> pystr" where
  "str_nat n = (if n < 10 then [48 + n] else str_nat (n div 10) @ [48 + n mod 10])"

definition str_int :: "int \<Rightarrow> pystr" where
  "str_int n = (if n < 0 then py ''-'' @ str_nat (nat (- n)) else str_nat (nat n))"

subsection \<open>The standard library's sequence matcher and unified diff\<close>

text \<open>
  \<^verbatim>\<open>_compute_diff\<close> calls \<^verbatim>\<open>difflib.unified_diff\<close>, which runs a
  \<^verbatim>\<open>SequenceMatcher(None, a, b)\<close>. The functions below follow CPython's
  \<^verbatim>\<open>Lib/difflib.py\<close> with \<^verbatim>\<open>isjunk = None\<close> and \<^verbatim>\<open>autojunk = True\<close>: the junk set
  is empty, so the two loops that extend a match over junk never run and are left out.

  \<open>chain_b\<close> is \<^verbatim>\<open>__chain_b\<close>: \<open>b2j elt\<close> lists the indices of \<open>elt\<close> in \<open>b\<close> in
  ascending order; for a sequence of 200 or more elements, an element occurring more
  than \<open>n div 100 + 1\<close> times is popular and loses its entry. A missing key reads as
  the empty list, as \<^verbatim>\<open>b2j.get(a[i], nothing)\<close> does.
\<close>

type_synonym match = "nat \<times> nat \<times> nat"

definition chain_b :: "'a list \<Rightarrow> 'a \<Rightarrow> nat list" where
  "chain_b b =
     (let n = length b;
          b2j = (\<lambda>elt. filter (\<lambda>i. b ! i = elt) [0..<n])
      in if n \<ge> 200
         then (\<lambda>elt. if length (b2j elt) > n div 100 + 1 then [] else b2j elt)
         else b2j)"

text \<open>
  \<^verbatim>\<open>find_longest_match\<close>. \<open>scan_row\<close> is the inner loop over the indices \<open>j\<close> of
  \<open>a[i]\<close> in \<open>b\<close> (\<^verbatim>\<open>continue\<close> below \<open>blo\<close>, \<^verbatim>\<open>break\<close> at \<open>bhi\<close>), \<open>scan_rows\<close> the
  outer loop over \<open>i\<close>. The key \<open>j - 1\<close> is \<open>-1\<close> for \<open>j = 0\<close> in Python and never in
  the dictionary, hence the test on \<open>j = 0\<close>. \<open>i + 1 - k\<close> stands for \<^verbatim>\<open>i-k+1\<close>; lemma
  \<open>scan_row_ok\<close> shows \<open>k \<le> i + 1\<close> and \<open>k \<le> j + 1\<close>, so the natural-number subtraction
  is exact.
\<close>

fun scan_row :: "(nat \<rightharpoonup> nat) \<Rightarrow> nat \<Rightarrow> nat \<Rightarrow> nat \<Rightarrow> nat list
                 \<Rightarrow> (nat \<rightharpoonup> nat) \<times> match \<Rightarrow> (nat \<rightharpoonup> nat) \<times> match" where
  "scan_row j2len i blo bhi [] st = st"
| "scan_row j2len i blo bhi (j # js) (newj2len, besti, bestj, bestsize) =
     (if j < blo then scan_row j2len i blo bhi js (newj2len, besti, bestj, bestsize)
      else if j \<ge> bhi then (newj2len, besti, bestj, bestsize)
      else (let k = (if j = 0 then 0 else case j2len (j - 1) of None \<Rightarrow> 0 | Some v \<Rightarrow> v) + 1
            in if k > bestsize
               then scan_row j2len i blo bhi js (newj2len(j \<mapsto> k), i + 1 - k, j + 1 - k, k)
               else scan_row j2len i blo bhi js (newj2len(j \<mapsto> k), besti, bestj, bestsize)))"

fun scan_rows :: "'a list \<Rightarrow> ('a \<Rightarrow> nat list) \<Rightarrow> nat \<Rightarrow> nat \<Rightarrow> nat list
                  \<Rightarrow> (nat \<rightharpoonup> nat) \<Rightarrow> match \<Rightarrow> match" where
  "scan_rows a b2j blo bhi [] j2len best = best"
| "scan_rows a b2j blo bhi (i # is) j2len best =
     (case scan_row j2len i blo bhi (b2j (a ! i)) (Map.empty, best) of
        (newj2len, best') \<Rightarrow> scan_rows a b2j blo bhi is newj2len best')"

function extend_left :: "'a list \<Rightarrow> 'a list \<Rightarrow> nat \<Rightarrow> nat \<Rightarrow> match \<Rightarrow> match" where
  "extend_left a b alo blo (besti, bestj, bestsize) =
     (if besti > alo \<and> bestj > blo \<and> a ! (besti - 1) = b ! (bestj - 1)
      then extend_left a b alo blo (besti - 1, bestj - 1, bestsize + 1)
      else (besti, bestj, bestsize))"
  by pat_completeness auto
termination
  by (relation "measure (\<lambda>(a, b, alo, blo, besti, bestj, bestsize). besti)") auto

function extend_right :: "'a list \<Rightarrow> 'a list \<Rightarrow> nat \<Rightarrow> nat \<Rightarrow> match \<Rightarrow> match" where
  "extend_right a b ahi bhi (besti, bestj, bestsize) =
     (if besti + bestsize < ahi \<and> bestj + bestsize < bhi
         \<and> a ! (besti + bestsize) = b ! (bestj + bestsize)
      then extend_right a b ahi bhi (besti, bestj, bestsize + 1)
      else (besti, bestj, bestsize))"
  by pat_completeness auto
termination
  by (relation "measure (\<lambda>(a, b, ahi, bhi, besti, bestj, bestsize). ahi - (besti + bestsize))") auto

declare extend_left.simps [simp del] extend_right.simps [simp del]

definition find_longest_match ::
  "'a list \<Rightarrow> 'a list \<Rightarrow> ('a \<Rightarrow> nat list) \<Rightarrow> nat \<Rightarrow> nat \<Rightarrow> nat \<Rightarrow> nat \<Rightarrow> match" where
  "find_longest_match a b b2j alo ahi blo bhi =
     extend_right a b ahi bhi
       (extend_left a b alo blo
          (scan_rows a b2j blo bhi [alo..<ahi] Map.empty (alo, blo, 0)))"

text \<open>
  The match returned for a region lies inside it. The loop of
  \<^verbatim>\<open>get_matching_blocks\<close> terminates for this reason, and the opcodes partition both
  sequences for this reason.
\<close>

definition in_region :: "nat \<Rightarrow> nat \<Rightarrow> nat \<Rightarrow> nat \<Rightarrow> match \<Rightarrow> bool" where
  "in_region alo ahi blo bhi m =
     (case m of (i, j, k) \<Rightarrow> alo \<le> i \<and> i + k \<le> ahi \<and> blo \<le> j \<and> j + k \<le> bhi)"

definition best_ok :: "nat \<Rightarrow> nat \<Rightarrow> nat \<Rightarrow> nat \<Rightarrow> match \<Rightarrow> bool" where
  "best_ok alo u blo bhi m = (m = (alo, blo, 0) \<or> in_region alo u blo bhi m)"

definition row_ok :: "nat \<Rightarrow> nat \<Rightarrow> nat \<Rightarrow> (nat \<rightharpoonup> nat) \<Rightarrow> bool" where
  "row_ok alo blo i m = (\<forall>j v. m j = Some v \<longrightarrow> blo \<le> j \<and> v \<le> i - alo \<and> v \<le> j + 1 - blo)"

lemma scan_row_ok:
  assumes "alo \<le> i" "row_ok alo blo i j2len"
    and "row_ok alo blo (Suc i) new" "best_ok alo (Suc i) blo bhi best"
    and "scan_row j2len i blo bhi js (new, best) = (new', best')"
  shows "row_ok alo blo (Suc i) new' \<and> best_ok alo (Suc i) blo bhi best'"
  using assms
proof (induction js arbitrary: new best)
  case Nil
  then show ?case by simp
next
  case (Cons j js)
  obtain bi bj bs where best: "best = (bi, bj, bs)" by (cases best) auto
  show ?case
  proof (cases "j < blo")
    case True
    with Cons best show ?thesis by simp
  next
    case lo: False
    show ?thesis
    proof (cases "j \<ge> bhi")
      case True
      with Cons lo best show ?thesis by simp
    next
      case hi: False
      define k where "k = (if j = 0 then 0 else case j2len (j - 1) of None \<Rightarrow> 0 | Some v \<Rightarrow> v) + 1"
      have k1: "k \<le> Suc i - alo"
      proof (cases "j = 0")
        case True
        then show ?thesis using Cons.prems(1) unfolding k_def by simp
      next
        case False
        show ?thesis
        proof (cases "j2len (j - 1)")
          case None
          then show ?thesis using Cons.prems(1) False unfolding k_def by simp
        next
          case (Some v)
          then have "v \<le> i - alo" using Cons.prems(2) unfolding row_ok_def by blast
          then show ?thesis using Cons.prems(1) False Some unfolding k_def by simp
        qed
      qed
      have k2: "k \<le> j + 1 - blo"
      proof (cases "j = 0")
        case True
        then show ?thesis using lo unfolding k_def by simp
      next
        case False
        show ?thesis
        proof (cases "j2len (j - 1)")
          case None
          then show ?thesis using lo False unfolding k_def by simp
        next
          case (Some v)
          then have "blo \<le> j - 1 \<and> v \<le> (j - 1) + 1 - blo" using Cons.prems(2) unfolding row_ok_def by blast
          then show ?thesis using lo False Some unfolding k_def by simp arith
        qed
      qed
      have new_ok: "row_ok alo blo (Suc i) (new(j \<mapsto> k))"
        using Cons.prems(3) k1 k2 lo unfolding row_ok_def by auto
      have best_new: "best_ok alo (Suc i) blo bhi (i + 1 - k, j + 1 - k, k)"
        using k1 k2 hi lo Cons.prems(1) unfolding best_ok_def in_region_def k_def by auto
      show ?thesis
      proof (cases "k > bs")
        case True
        then have "scan_row j2len i blo bhi js (new(j \<mapsto> k), i + 1 - k, j + 1 - k, k) = (new', best')"
          using Cons.prems(5) lo hi best unfolding k_def by (simp add: Let_def)
        from Cons.IH[OF Cons.prems(1,2) new_ok best_new this] show ?thesis .
      next
        case False
        then have "scan_row j2len i blo bhi js (new(j \<mapsto> k), best) = (new', best')"
          using Cons.prems(5) lo hi best unfolding k_def by (simp add: Let_def)
        from Cons.IH[OF Cons.prems(1,2) new_ok Cons.prems(4) this] show ?thesis .
      qed
    qed
  qed
qed

lemma best_ok_mono: "best_ok alo u blo bhi m \<Longrightarrow> u \<le> u' \<Longrightarrow> best_ok alo u' blo bhi m"
  unfolding best_ok_def in_region_def by (auto split: prod.splits)

lemma scan_rows_ok:
  assumes "alo \<le> i" "row_ok alo blo i j2len" "best_ok alo i blo bhi best"
  shows "best_ok alo (max i ahi) blo bhi (scan_rows a b2j blo bhi [i..<ahi] j2len best)"
  using assms
proof (induction "ahi - i" arbitrary: i j2len best)
  case 0
  then show ?case by (simp add: max_def)
next
  case (Suc n)
  then have lt: "i < ahi" by simp
  obtain new' best' where sr: "scan_row j2len i blo bhi (b2j (a ! i)) (Map.empty, best) = (new', best')"
    by (cases "scan_row j2len i blo bhi (b2j (a ! i)) (Map.empty, best)") auto
  have e: "row_ok alo blo (Suc i) Map.empty" by (simp add: row_ok_def)
  have b: "best_ok alo (Suc i) blo bhi best" by (rule best_ok_mono[OF Suc.prems(3)]) simp
  from scan_row_ok[OF Suc.prems(1,2) e b sr]
  have r: "row_ok alo blo (Suc i) new'" and g: "best_ok alo (Suc i) blo bhi best'" by auto
  have n: "n = ahi - Suc i" using Suc.hyps(2) by simp
  have le: "alo \<le> Suc i" using Suc.prems(1) by simp
  from Suc.hyps(1)[OF n le r g]
  have "best_ok alo (max (Suc i) ahi) blo bhi (scan_rows a b2j blo bhi [Suc i..<ahi] new' best')" .
  moreover have "max (Suc i) ahi = max i ahi" using lt by simp
  ultimately show ?case using lt sr by (simp add: upt_conv_Cons)
qed

lemma extend_left_ok:
  "best_ok alo u blo bhi m \<Longrightarrow> best_ok alo u blo bhi (extend_left a b alo blo m)"
proof (induction a b alo blo m rule: extend_left.induct)
  case (1 a b alo blo besti bestj bestsize)
  show ?case
  proof (cases "besti > alo \<and> bestj > blo \<and> a ! (besti - 1) = b ! (bestj - 1)")
    case True
    then have "best_ok alo u blo bhi (besti - 1, bestj - 1, bestsize + 1)"
      using "1.prems" unfolding best_ok_def in_region_def by auto
    from "1.IH"[OF True this] True show ?thesis by (subst extend_left.simps) simp
  next
    case False
    then show ?thesis using "1.prems" by (subst extend_left.simps) auto
  qed
qed

lemma extend_right_ok:
  "best_ok alo ahi blo bhi m \<Longrightarrow> best_ok alo ahi blo bhi (extend_right a b ahi bhi m)"
proof (induction a b ahi bhi m rule: extend_right.induct)
  case (1 a b ahi bhi besti bestj bestsize)
  show ?case
  proof (cases "besti + bestsize < ahi \<and> bestj + bestsize < bhi
         \<and> a ! (besti + bestsize) = b ! (bestj + bestsize)")
    case True
    then have "best_ok alo ahi blo bhi (besti, bestj, bestsize + 1)"
      using "1.prems" unfolding best_ok_def in_region_def by auto
    from "1.IH"[OF True this] True show ?thesis by (subst extend_right.simps) simp
  next
    case False
    then show ?thesis using "1.prems" by (subst extend_right.simps) auto
  qed
qed

lemma extend_left_zero:
  "extend_left a b alo blo (alo, blo, 0) = (alo, blo, 0)"
  by (subst extend_left.simps) simp

lemma find_longest_match_region:
  assumes "find_longest_match a b b2j alo ahi blo bhi = (i, j, k)" "k \<noteq> 0"
  shows "alo \<le> i \<and> i + k \<le> ahi \<and> blo \<le> j \<and> j + k \<le> bhi"
proof -
  have r: "row_ok alo blo alo Map.empty" by (simp add: row_ok_def)
  have b: "best_ok alo alo blo bhi (alo, blo, 0)" by (simp add: best_ok_def)
  have s: "best_ok alo (max alo ahi) blo bhi (scan_rows a b2j blo bhi [alo..<ahi] Map.empty (alo, blo, 0))"
    by (rule scan_rows_ok[OF le_refl r b])
  show ?thesis
  proof (cases "alo \<le> ahi")
    case True
    then have "max alo ahi = ahi" by simp
    with s have "best_ok alo ahi blo bhi (find_longest_match a b b2j alo ahi blo bhi)"
      unfolding find_longest_match_def by (intro extend_right_ok extend_left_ok) simp
    with assms show ?thesis unfolding best_ok_def in_region_def by auto
  next
    case False
    then have "[alo..<ahi] = []" by simp
    then have "find_longest_match a b b2j alo ahi blo bhi = (alo, blo, 0)"
      using False unfolding find_longest_match_def
      by (simp add: extend_left_zero) (subst extend_right.simps, simp)
    with assms show ?thesis by simp
  qed
qed

text \<open>
  \<^verbatim>\<open>get_matching_blocks\<close>: the work list is used as a stack (\<^verbatim>\<open>queue.pop()\<close> takes
  the last element, which is the head of the list here), then the blocks are sorted
  and adjacent ones are merged, and the sentinel \<open>(la, lb, 0)\<close> is appended.
\<close>

type_synonym region = "nat \<times> nat \<times> nat \<times> nat"

definition region_weight :: "region \<Rightarrow> nat" where
  "region_weight r = (case r of (alo, ahi, blo, bhi) \<Rightarrow> 2 * (ahi - alo) + 1)"

function matching_loop ::
  "'a list \<Rightarrow> 'a list \<Rightarrow> ('a \<Rightarrow> nat list) \<Rightarrow> region list \<Rightarrow> match list \<Rightarrow> match list" where
  "matching_loop a b b2j [] matching_blocks = matching_blocks"
| "matching_loop a b b2j ((alo, ahi, blo, bhi) # queue) matching_blocks =
     (case find_longest_match a b b2j alo ahi blo bhi of (i, j, k) \<Rightarrow>
        if k \<noteq> 0
        then matching_loop a b b2j
               ((if i + k < ahi \<and> j + k < bhi then [(i + k, ahi, j + k, bhi)] else [])
                @ (if alo < i \<and> blo < j then [(alo, i, blo, j)] else [])
                @ queue)
               (matching_blocks @ [(i, j, k)])
        else matching_loop a b b2j queue matching_blocks)"
  by pat_completeness auto
termination
proof (relation "measure (\<lambda>(a, b, b2j, queue, blocks). sum_list (map region_weight queue))", goal_cases)
  case 1
  show ?case by simp
next
  case (2 a b b2j alo ahi blo bhi queue matching_blocks x y xa ya)
  then have "find_longest_match a b b2j alo ahi blo bhi = (x, xa, ya)" and "ya \<noteq> 0"
    by simp_all
  from find_longest_match_region[OF this] have "alo \<le> x" "x + ya \<le> ahi" by auto
  with \<open>ya \<noteq> 0\<close> show ?case by (auto simp: region_weight_def)
next
  case 3
  show ?case by (simp add: region_weight_def)
qed

declare matching_loop.simps [simp del]

fun collapse :: "match \<Rightarrow> match list \<Rightarrow> match list" where
  "collapse (i1, j1, k1) [] = (if k1 \<noteq> 0 then [(i1, j1, k1)] else [])"
| "collapse (i1, j1, k1) ((i2, j2, k2) # ms) =
     (if i1 + k1 = i2 \<and> j1 + k1 = j2
      then collapse (i1, j1, k1 + k2) ms
      else (if k1 \<noteq> 0 then [(i1, j1, k1)] else []) @ collapse (i2, j2, k2) ms)"

definition get_matching_blocks :: "'a list \<Rightarrow> 'a list \<Rightarrow> match list" where
  "get_matching_blocks a b =
     (let la = length a; lb = length b;
          matching_blocks = sort (matching_loop a b (chain_b b) [(0, la, 0, lb)] []);
          non_adjacent = collapse (0, 0, 0) matching_blocks
      in non_adjacent @ [(la, lb, 0)])"

text \<open>\<^verbatim>\<open>get_opcodes\<close> and \<^verbatim>\<open>get_grouped_opcodes(n)\<close>.\<close>

datatype tag = Replace | Delete | Insert | Equal

type_synonym opcode = "tag \<times> nat \<times> nat \<times> nat \<times> nat"

fun opcodes_loop :: "nat \<Rightarrow> nat \<Rightarrow> match list \<Rightarrow> opcode list" where
  "opcodes_loop i j [] = []"
| "opcodes_loop i j ((ai, bj, sz) # ms) =
     (if i < ai \<and> j < bj then [(Replace, i, ai, j, bj)]
      else if i < ai then [(Delete, i, ai, j, bj)]
      else if j < bj then [(Insert, i, ai, j, bj)]
      else [])
     @ (if sz \<noteq> 0 then [(Equal, ai, ai + sz, bj, bj + sz)] else [])
     @ opcodes_loop (ai + sz) (bj + sz) ms"

definition get_opcodes :: "'a list \<Rightarrow> 'a list \<Rightarrow> opcode list" where
  "get_opcodes a b = opcodes_loop 0 0 (get_matching_blocks a b)"

definition fix_leading :: "nat \<Rightarrow> opcode list \<Rightarrow> opcode list" where
  "fix_leading n codes =
     (case codes of
        (Equal, i1, i2, j1, j2) # rest \<Rightarrow> (Equal, max i1 (i2 - n), i2, max j1 (j2 - n), j2) # rest
      | _ \<Rightarrow> codes)"

definition fix_trailing :: "nat \<Rightarrow> opcode list \<Rightarrow> opcode list" where
  "fix_trailing n codes =
     (case rev codes of
        (Equal, i1, i2, j1, j2) # rest \<Rightarrow> rev rest @ [(Equal, i1, min i2 (i1 + n), j1, min j2 (j1 + n))]
      | _ \<Rightarrow> codes)"

fun group_loop :: "nat \<Rightarrow> opcode list \<Rightarrow> opcode list \<Rightarrow> opcode list list" where
  "group_loop n [] grp =
     (if grp \<noteq> [] \<and> \<not> (length grp = 1 \<and> fst (hd grp) = Equal) then [grp] else [])"
| "group_loop n ((tag, i1, i2, j1, j2) # codes) grp =
     (if tag = Equal \<and> i2 - i1 > n + n
      then (grp @ [(tag, i1, min i2 (i1 + n), j1, min j2 (j1 + n))])
           # group_loop n codes [(tag, max i1 (i2 - n), i2, max j1 (j2 - n), j2)]
      else group_loop n codes (grp @ [(tag, i1, i2, j1, j2)]))"

definition get_grouped_opcodes :: "'a list \<Rightarrow> 'a list \<Rightarrow> nat \<Rightarrow> opcode list list" where
  "get_grouped_opcodes a b n =
     (let codes = get_opcodes a b;
          codes = (if codes = [] then [(Equal, 0, 1, 0, 1)] else codes)
      in group_loop n (fix_trailing n (fix_leading n codes)) [])"

text \<open>
  \<^verbatim>\<open>unified_diff(a, b, lineterm='')\<close> with empty file names and dates: the two header
  lines are \<^verbatim>\<open>'--- '\<close> and \<^verbatim>\<open>'+++ '\<close>, each hunk begins with its \<^verbatim>\<open>@@\<close> line.
\<close>

definition slice :: "'a list \<Rightarrow> nat \<Rightarrow> nat \<Rightarrow> 'a list" where
  "slice xs i1 i2 = take (i2 - i1) (drop i1 xs)"

definition format_range_unified :: "nat \<Rightarrow> nat \<Rightarrow> pystr" where
  "format_range_unified start stop =
     (let beginning = start + 1; length = stop - start
      in if length = 1 then str_nat beginning
         else str_nat (if length = 0 then beginning - 1 else beginning) @ py '','' @ str_nat length)"

fun opcode_lines :: "pystr list \<Rightarrow> pystr list \<Rightarrow> opcode \<Rightarrow> pystr list" where
  "opcode_lines a b (tag, i1, i2, j1, j2) =
     (if tag = Equal then map (\<lambda>line. py '' '' @ line) (slice a i1 i2)
      else (if tag = Replace \<or> tag = Delete then map (\<lambda>line. py ''-'' @ line) (slice a i1 i2) else [])
         @ (if tag = Replace \<or> tag = Insert then map (\<lambda>line. py ''+'' @ line) (slice b j1 j2) else []))"

definition group_lines :: "pystr list \<Rightarrow> pystr list \<Rightarrow> pystr \<Rightarrow> opcode list \<Rightarrow> pystr list" where
  "group_lines a b lineterm grp =
     (case (hd grp, last grp) of ((t1, f1, f2, f3, f4), (t2, l1, l2, l3, l4)) \<Rightarrow>
        (py ''@@ -'' @ format_range_unified f1 l2 @ py '' +'' @ format_range_unified f3 l4
           @ py '' @@'' @ lineterm)
        # concat (map (opcode_lines a b) grp))"

definition unified_diff :: "pystr list \<Rightarrow> pystr list \<Rightarrow> pystr \<Rightarrow> pystr list" where
  "unified_diff a b lineterm =
     (case get_grouped_opcodes a b 3 of
        [] \<Rightarrow> []
      | groups \<Rightarrow> [py ''--- '' @ lineterm, py ''+++ '' @ lineterm]
                  @ concat (map (group_lines a b lineterm) groups))"

subsection \<open>The handler's line counts\<close>

text \<open>\<^verbatim>\<open>FileChangeHandler._compute_diff\<close>.\<close>

fun count_loop :: "pystr list \<Rightarrow> int \<times> int \<Rightarrow> int \<times> int" where
  "count_loop [] (added, deleted) = (added, deleted)"
| "count_loop (line # diff) (added, deleted) =
     (if startswith line (py ''+'') \<and> \<not> startswith line (py ''+++'')
      then count_loop diff (added + 1, deleted)
      else if startswith line (py ''-'') \<and> \<not> startswith line (py ''---'')
      then count_loop diff (added, deleted + 1)
      else count_loop diff (added, deleted))"

definition compute_diff :: "pystr \<Rightarrow> pystr \<Rightarrow> int \<times> int" where
  "compute_diff old_content new_content =
     (let old_lines = splitlines old_content;
          new_lines = splitlines new_content;
          diff = unified_diff old_lines new_lines []
      in count_loop diff (0, 0))"


subsection \<open>Exceptions, the filesystem and the state\<close>

datatype exn =
  UnicodeDecodeError | UnicodeEncodeError | PermissionError | FileNotFoundError
  | IsADirectoryError | OSError | TypeError | OperationalError

text \<open>
  A filesystem entry as the calls of the program observe it: \<^verbatim>\<open>os.path.isdir\<close>,
  \<^verbatim>\<open>os.path.getsize\<close>, the outcome of opening it as strict UTF-8 and reading the first
  1024 characters (\<open>None\<close> when that succeeds), and the outcome of opening it with
  \<^verbatim>\<open>errors='ignore'\<close> and reading it whole. \<^verbatim>\<open>shutil.copy2\<close> copies the entry.
\<close>

record fsnode =
  is_dir :: bool
  st_size :: int
  strict_read :: "exn option"
  lenient_read :: "exn + pystr"

text \<open>One row of the table \<^verbatim>\<open>file_changes\<close>; the \<^verbatim>\<open>id\<close> column is the position in the list.\<close>

record change_row =
  timestamp :: pystr
  file_path :: pystr
  event_type :: pystr
  size_before :: "int option"
  size_after :: "int option"
  size_change :: "int option"
  lines_added :: int
  lines_deleted :: int
  lines_changed :: int

text \<open>
  The state: the handler's set \<open>processing\<close>, the files by path, the shadow directory
  by shadow name (the blob and its \<^verbatim>\<open>.meta\<close> file), and the database. The connection
  is opened once and every \<^verbatim>\<open>record_change\<close> runs \<^verbatim>\<open>execute\<close> and then \<^verbatim>\<open>commit\<close> on it, with
  no rollback anywhere: \<open>rows\<close> are the committed rows in insertion order, \<open>pending\<close> the
  rows inserted in the open transaction and not yet committed. The environment is what
  \<^verbatim>\<open>datetime.now().isoformat()\<close> returns, the exception \<^verbatim>\<open>execute\<close> raises if the database
  refuses the \<^verbatim>\<open>INSERT\<close>, the exception \<^verbatim>\<open>commit\<close> raises if the database refuses the commit,
  the exception \<^verbatim>\<open>shadow_path.exists()\<close> raises if the shadow directory cannot be searched,
  and the exception a write into the shadow directory raises if that fails. Console
  output is not part of the state: every \<^verbatim>\<open>print\<close> is taken to succeed.
\<close>

record state =
  processing :: "pystr set"
  files :: "pystr \<rightharpoonup> fsnode"
  shadows :: "pystr \<rightharpoonup> fsnode"
  metas :: "pystr \<rightharpoonup> pystr \<times> int"
  rows :: "change_row list"
  pending :: "change_row list"
  clock :: pystr
  execute_fault :: "exn option"
  commit_fault :: "exn option"
  shadow_stat_fault :: "exn option"
  shadow_fault :: "exn option"

subsection \<open>ShadowCopyManager\<close>

text \<open>
  \<^verbatim>\<open>_get_shadow_path\<close>: the shadow of a path is the file named by the MD5 digest of
  \<^verbatim>\<open>file_path.encode()\<close>. A string encodes as UTF-8 unless it holds a surrogate code point
  (\<open>0xD800\<close> to \<open>0xDFFF\<close>), which is how a file name that is not valid UTF-8 reaches the
  program; then \<^verbatim>\<open>encode\<close> raises \<^verbatim>\<open>UnicodeEncodeError\<close>. The digest of the encoded path is
  a parameter \<open>digest\<close> of every operation that needs it. \<^verbatim>\<open>_get_metadata_path\<close> is the
  same name with the suffix \<^verbatim>\<open>.meta\<close>; the two files share the key here.
\<close>

definition encodable :: "pystr \<Rightarrow> bool" where
  "encodable text = list_all (\<lambda>c. c < 55296 \<or> 57343 < c) text"

definition get_shadow_path :: "(pystr \<Rightarrow> pystr) \<Rightarrow> pystr \<Rightarrow> exn + pystr" where
  "get_shadow_path digest path =
     (if encodable path then Inr (digest path) else Inl UnicodeEncodeError)"

text \<open>
  \<^verbatim>\<open>has_shadow\<close> has no \<^verbatim>\<open>try\<close>: the exception of \<^verbatim>\<open>_get_shadow_path\<close> leaves it, and so
  does an exception of \<^verbatim>\<open>shadow_path.exists()\<close>, which returns \<^verbatim>\<open>False\<close> for a missing file
  and raises for other failures of the lookup, such as a shadow directory without
  search permission.
\<close>

definition has_shadow :: "(pystr \<Rightarrow> pystr) \<Rightarrow> pystr \<Rightarrow> state \<Rightarrow> exn + bool" where
  "has_shadow digest path s =
     (case get_shadow_path digest path of
        Inl e \<Rightarrow> Inl e
      | Inr shadow_path \<Rightarrow>
          (case shadow_stat_fault s of
             Some e \<Rightarrow> Inl e
           | None \<Rightarrow> Inr (shadows s shadow_path \<noteq> None)))"

text \<open>
  \<^verbatim>\<open>create_shadow\<close>, \<^verbatim>\<open>get_shadow_content\<close> and \<^verbatim>\<open>get_shadow_size\<close> run inside a \<^verbatim>\<open>try\<close> that
  catches every exception and returns \<^verbatim>\<open>False\<close>, respectively \<^verbatim>\<open>None\<close>.
  \<^verbatim>\<open>shutil.copy2\<close> raises for a directory and when the shadow directory refuses the write.
\<close>

definition create_shadow :: "(pystr \<Rightarrow> pystr) \<Rightarrow> pystr \<Rightarrow> state \<Rightarrow> bool \<times> state" where
  "create_shadow digest path s =
     (case files s path of
        None \<Rightarrow> (False, s)
      | Some node \<Rightarrow>
          (case get_shadow_path digest path of
             Inl e \<Rightarrow> (False, s)
           | Inr shadow_path \<Rightarrow>
               if is_dir node then (False, s)
               else (case shadow_fault s of
                       Some e \<Rightarrow> (False, s)
                     | None \<Rightarrow>
                         (True, s\<lparr>shadows := (shadows s)(shadow_path \<mapsto> node),
                                   metas := (metas s)(shadow_path \<mapsto> (path, st_size node))\<rparr>))))"

definition get_shadow_content :: "(pystr \<Rightarrow> pystr) \<Rightarrow> pystr \<Rightarrow> state \<Rightarrow> pystr option" where
  "get_shadow_content digest path s =
     (case get_shadow_path digest path of
        Inl e \<Rightarrow> None
      | Inr shadow_path \<Rightarrow>
          (case shadow_stat_fault s of
             Some e \<Rightarrow> None
           | None \<Rightarrow>
               (case shadows s shadow_path of
                  None \<Rightarrow> None
                | Some node \<Rightarrow>
                    (case lenient_read node of Inl e \<Rightarrow> None | Inr content \<Rightarrow> Some content))))"

definition get_shadow_size :: "(pystr \<Rightarrow> pystr) \<Rightarrow> pystr \<Rightarrow> state \<Rightarrow> int option" where
  "get_shadow_size digest path s =
     (case get_shadow_path digest path of
        Inl e \<Rightarrow> None
      | Inr shadow_path \<Rightarrow>
          (case shadow_stat_fault s of
             Some e \<Rightarrow> None
           | None \<Rightarrow>
               (case shadows s shadow_path of
                  None \<Rightarrow> None
                | Some node \<Rightarrow> Some (st_size node))))"

definition update_shadow :: "(pystr \<Rightarrow> pystr) \<Rightarrow> pystr \<Rightarrow> state \<Rightarrow> bool \<times> state" where
  "update_shadow digest path s = create_shadow digest path s"

subsection \<open>ChangeDatabase\<close>

text \<open>
  \<^verbatim>\<open>record_change\<close>: \<^verbatim>\<open>cursor.execute\<close> adds the row to the open transaction, or raises and
  adds nothing; \<^verbatim>\<open>conn.commit()\<close> makes every pending row a committed row, or raises and
  leaves the transaction open with the new row in it, to be committed by the next
  commit that succeeds.
\<close>

definition record_change ::
  "pystr \<Rightarrow> pystr \<Rightarrow> int option \<Rightarrow> int option \<Rightarrow> int \<Rightarrow> int \<Rightarrow> state \<Rightarrow> (exn + pystr) \<times> state" where
  "record_change path etype sbefore safter added deleted s =
     (let ts = clock s;
          change = (case sbefore of
                      None \<Rightarrow> None
                    | Some b \<Rightarrow> (case safter of None \<Rightarrow> None | Some a \<Rightarrow> Some (a - b)));
          row = \<lparr>timestamp = ts, file_path = path, event_type = etype,
                 size_before = sbefore, size_after = safter, size_change = change,
                 lines_added = added, lines_deleted = deleted,
                 lines_changed = added + deleted\<rparr>
      in case execute_fault s of
           Some e \<Rightarrow> (Inl e, s)
         | None \<Rightarrow>
             (case commit_fault s of
                Some e \<Rightarrow> (Inl e, s\<lparr>pending := pending s @ [row]\<rparr>)
              | None \<Rightarrow> (Inr ts, s\<lparr>rows := rows s @ pending s @ [row], pending := []\<rparr>)))"

subsection \<open>FileChangeHandler: the filter\<close>

text \<open>
  \<^verbatim>\<open>Path(file_path).parts\<close> on a POSIX system: the root (\<^verbatim>\<open>'//'\<close> for exactly two leading
  slashes, \<^verbatim>\<open>'/'\<close> for one or for three and more), then the segments between slashes
  that are neither empty nor \<^verbatim>\<open>'.'\<close>.
\<close>

fun split_on :: "nat \<Rightarrow> pystr \<Rightarrow> pystr list" where
  "split_on sep [] = [[]]"
| "split_on sep (c # cs) =
     (if c = sep then [] # split_on sep cs
      else (case split_on sep cs of [] \<Rightarrow> [[c]] | seg # segs \<Rightarrow> (c # seg) # segs))"

definition path_root :: "pystr \<Rightarrow> pystr list" where
  "path_root p =
     (if startswith p (py ''//'') \<and> \<not> startswith p (py ''///'') then [py ''//'']
      else if startswith p (py ''/'') then [py ''/'']
      else [])"

definition path_parts :: "pystr \<Rightarrow> pystr list" where
  "path_parts p = path_root p @ filter (\<lambda>x. x \<noteq> [] \<and> x \<noteq> py ''.'') (split_on 47 p)"

definition excluded :: "pystr list" where
  "excluded = [py ''.git'', py ''__pycache__'', py ''node_modules'', py ''.viber_shadow'',
               py ''.viber.db'', py ''venv'', py ''.env'']"

definition part_rejected :: "pystr \<Rightarrow> bool" where
  "part_rejected part = (part \<in> set excluded \<or> startswith part (py ''.''))"

definition should_process :: "pystr \<Rightarrow> state \<Rightarrow> exn + bool" where
  "should_process path s =
     (if (case files s path of None \<Rightarrow> False | Some node \<Rightarrow> is_dir node) then Inr False
      else if list_ex part_rejected (path_parts path) then Inr False
      else (case files s path of
              None \<Rightarrow> Inr False
            | Some node \<Rightarrow>
                (case strict_read node of
                   None \<Rightarrow> Inr True
                 | Some e \<Rightarrow>
                     if e = UnicodeDecodeError \<or> e = PermissionError \<or> e = FileNotFoundError
                     then Inr False
                     else Inl e)))"

subsection \<open>FileChangeHandler: the magnitude of a change\<close>

text \<open>
  The \<^verbatim>\<open>if\<close>/\<^verbatim>\<open>elif\<close> chain of \<^verbatim>\<open>_process_modification\<close> that builds the string
  \<^verbatim>\<open>magnitude\<close>. \<^verbatim>\<open>size_before\<close> is an optional integer: comparing \<^verbatim>\<open>None > 0\<close> raises
  \<^verbatim>\<open>TypeError\<close>, and \<^verbatim>\<open>None\<close> and \<open>0\<close> are false where the code tests \<^verbatim>\<open>size_before\<close>
  alone. The products with \<open>0.5\<close> and \<open>2\<close> are taken in the reals; Python's floats
  agree with them for sizes below \<open>2^53\<close>.
\<close>

definition magnitude :: "int option \<Rightarrow> int \<Rightarrow> exn + pystr" where
  "magnitude sbefore safter =
     (case sbefore of
        None \<Rightarrow> if safter = 0 then Inl TypeError else Inr []
      | Some b \<Rightarrow>
          if safter = 0 \<and> b > 0 then Inr (py '' [FILE ZEROED OUT!]'')
          else if b \<noteq> 0 \<and> real_of_int safter < real_of_int b * 0.5
          then Inr (py '' [LARGE DELETION: -'' @ str_int (b - safter) @ py '' bytes]'')
          else if b \<noteq> 0 \<and> real_of_int safter > real_of_int b * 2
          then Inr (py '' [LARGE ADDITION: +'' @ str_int (safter - b) @ py '' bytes]'')
          else Inr [])"

subsection \<open>FileChangeHandler: the two event paths\<close>

text \<open>
  \<open>compare_with_shadow\<close> is the branch of \<^verbatim>\<open>_process_modification\<close> taken when a shadow
  exists: read it, diff, classify, record. The \<^verbatim>\<open>print\<close> after the record formats
  \<^verbatim>\<open>size_after - size_before\<close>, which raises \<^verbatim>\<open>TypeError\<close> when the size is \<^verbatim>\<open>None\<close>.
\<close>

definition compare_with_shadow ::
  "(pystr \<Rightarrow> pystr) \<Rightarrow> pystr \<Rightarrow> int \<Rightarrow> pystr \<Rightarrow> state \<Rightarrow> (exn + unit) \<times> state" where
  "compare_with_shadow digest path safter new_content s =
     (let old_content = get_shadow_content digest path s;
          sbefore = get_shadow_size digest path s
      in case old_content of
           None \<Rightarrow> (Inr (), s)
         | Some old \<Rightarrow>
             (case compute_diff old new_content of (added, deleted) \<Rightarrow>
                (case magnitude sbefore safter of
                   Inl e \<Rightarrow> (Inl e, s)
                 | Inr mag \<Rightarrow>
                     (case record_change path (py ''modified'') sbefore (Some safter) added deleted s of
                        (Inl e, s') \<Rightarrow> (Inl e, s')
                      | (Inr ts, s') \<Rightarrow>
                          (case sbefore of
                             None \<Rightarrow> (Inl TypeError, s')
                           | Some b \<Rightarrow> (Inr (), s'))))))"

text \<open>The body of the \<^verbatim>\<open>try\<close> block of \<^verbatim>\<open>_process_modification\<close>, after the guard is taken.\<close>

definition modification_body :: "(pystr \<Rightarrow> pystr) \<Rightarrow> pystr \<Rightarrow> state \<Rightarrow> (exn + unit) \<times> state" where
  "modification_body digest path s =
     (case should_process path s of
        Inl e \<Rightarrow> (Inl e, s)
      | Inr ok \<Rightarrow>
          if \<not> ok then (Inr (), s)
          else (case files s path of
                  None \<Rightarrow> (Inr (), s)
                | Some node \<Rightarrow>
                    (case lenient_read node of
                       Inl e \<Rightarrow> (Inr (), s)
                     | Inr new_content \<Rightarrow>
                         (case has_shadow digest path s of
                            Inl e \<Rightarrow> (Inl e, s)
                          | Inr tracked \<Rightarrow>
                              (case (if tracked
                                     then compare_with_shadow digest path (st_size node) new_content s
                                     else (Inr (), s)) of
                                 (Inl e, s') \<Rightarrow> (Inl e, s')
                               | (Inr u, s') \<Rightarrow> (Inr (), snd (update_shadow digest path s')))))))"

text \<open>
  \<^verbatim>\<open>_process_modification\<close>: return at once when the path is in \<open>processing\<close>; otherwise
  add it, run the body, and discard it in the \<^verbatim>\<open>finally\<close> clause, whether the body
  returned or raised.
\<close>

definition process_modification :: "(pystr \<Rightarrow> pystr) \<Rightarrow> pystr \<Rightarrow> state \<Rightarrow> (exn + unit) \<times> state" where
  "process_modification digest path s =
     (if path \<in> processing s then (Inr (), s)
      else (case modification_body digest path (s\<lparr>processing := insert path (processing s)\<rparr>) of
              (r, s') \<Rightarrow> (r, s'\<lparr>processing := processing s' - {path}\<rparr>)))"

definition process_creation :: "(pystr \<Rightarrow> pystr) \<Rightarrow> pystr \<Rightarrow> state \<Rightarrow> (exn + unit) \<times> state" where
  "process_creation digest path s =
     (case should_process path s of
        Inl e \<Rightarrow> (Inl e, s)
      | Inr ok \<Rightarrow>
          if \<not> ok then (Inr (), s)
          else (case files s path of
                  None \<Rightarrow> (Inr (), s)
                | Some node \<Rightarrow>
                    (case record_change path (py ''created'') None (Some (st_size node)) 0 0 s of
                       (Inl e, s') \<Rightarrow> (Inl e, s')
                     | (Inr ts, s') \<Rightarrow> (Inr (), snd (create_shadow digest path s')))))"

text \<open>
  The watchdog callbacks. The event carries \<^verbatim>\<open>src_path\<close> and \<^verbatim>\<open>is_directory\<close>;
  \<^verbatim>\<open>time.sleep(0.1)\<close> in \<^verbatim>\<open>on_created\<close> changes nothing in the state.
\<close>

record event =
  src_path :: pystr
  is_directory :: bool

definition on_modified :: "(pystr \<Rightarrow> pystr) \<Rightarrow> event \<Rightarrow> state \<Rightarrow> (exn + unit) \<times> state" where
  "on_modified digest ev s =
     (if \<not> is_directory ev then process_modification digest (src_path ev) s else (Inr (), s))"

definition on_created :: "(pystr \<Rightarrow> pystr) \<Rightarrow> event \<Rightarrow> state \<Rightarrow> (exn + unit) \<times> state" where
  "on_created digest ev s =
     (if \<not> is_directory ev then process_creation digest (src_path ev) s else (Inr (), s))"

subsection \<open>Notions used in the proofs about the diff\<close>

text \<open>
  \<open>plain_lines\<close> holds for a text none of whose lines begins with \<^verbatim>\<open>++\<close> or \<^verbatim>\<open>--\<close>.
  \<open>counts_added\<close> and \<open>counts_deleted\<close> are the two tests of the counting loop.
  \<open>changes\<close> keeps the opcodes that are not \<^verbatim>\<open>equal\<close>; \<open>ins_len\<close> and \<open>del_len\<close> are the
  numbers of lines an opcode inserts and deletes. \<open>chain_to i j la lb ms\<close> says that
  the matching blocks \<open>ms\<close> follow one another in both sequences, starting at or after
  \<open>(i, j)\<close> and ending at or before \<open>(la, lb)\<close>. Regions and blocks are compared by
  \<open>before\<close>, \<open>apart\<close> and \<open>inside\<close>; \<open>loop_inv\<close> is the invariant of the loop of
  \<^verbatim>\<open>get_matching_blocks\<close>.
\<close>

definition plain_lines :: "pystr \<Rightarrow> bool" where
  "plain_lines text =
     list_all (\<lambda>line. \<not> startswith line (py ''++'') \<and> \<not> startswith line (py ''--''))
       (splitlines text)"

definition counts_added :: "pystr \<Rightarrow> bool" where
  "counts_added line = (startswith line (py ''+'') \<and> \<not> startswith line (py ''+++''))"

definition counts_deleted :: "pystr \<Rightarrow> bool" where
  "counts_deleted line = (startswith line (py ''-'') \<and> \<not> startswith line (py ''---''))"

definition changes :: "opcode list \<Rightarrow> opcode list" where
  "changes codes = filter (\<lambda>c. fst c \<noteq> Equal) codes"

definition ins_len :: "opcode \<Rightarrow> nat" where
  "ins_len c = (case c of (tag, i1, i2, j1, j2) \<Rightarrow> if tag = Replace \<or> tag = Insert then j2 - j1 else 0)"

definition del_len :: "opcode \<Rightarrow> nat" where
  "del_len c = (case c of (tag, i1, i2, j1, j2) \<Rightarrow> if tag = Replace \<or> tag = Delete then i2 - i1 else 0)"

definition op_within :: "nat \<Rightarrow> nat \<Rightarrow> opcode \<Rightarrow> bool" where
  "op_within la lb c = (case c of (tag, i1, i2, j1, j2) \<Rightarrow> i2 \<le> la \<and> j2 \<le> lb)"

fun chain_to :: "nat \<Rightarrow> nat \<Rightarrow> nat \<Rightarrow> nat \<Rightarrow> match list \<Rightarrow> bool" where
  "chain_to i j la lb [] = (i \<le> la \<and> j \<le> lb)"
| "chain_to i j la lb ((ai, bj, k) # ms) = (i \<le> ai \<and> j \<le> bj \<and> chain_to (ai + k) (bj + k) la lb ms)"

definition matched :: "match list \<Rightarrow> nat" where
  "matched ms = sum_list (map (\<lambda>(i, j, k). k) ms)"

definition before :: "region \<Rightarrow> region \<Rightarrow> bool" where
  "before r r' = (case r of (alo, ahi, blo, bhi) \<Rightarrow> case r' of (alo', ahi', blo', bhi') \<Rightarrow>
                    ahi \<le> alo' \<and> bhi \<le> blo')"

definition apart :: "region \<Rightarrow> region \<Rightarrow> bool" where
  "apart r r' = (before r r' \<or> before r' r)"

definition inside :: "region \<Rightarrow> region \<Rightarrow> bool" where
  "inside r r' = (case r of (alo, ahi, blo, bhi) \<Rightarrow> case r' of (alo', ahi', blo', bhi') \<Rightarrow>
                    alo' \<le> alo \<and> ahi \<le> ahi' \<and> blo' \<le> blo \<and> bhi \<le> bhi')"

definition block_region :: "match \<Rightarrow> region" where
  "block_region m = (case m of (i, j, k) \<Rightarrow> (i, i + k, j, j + k))"

definition loop_inv :: "nat \<Rightarrow> nat \<Rightarrow> region list \<Rightarrow> match list \<Rightarrow> bool" where
  "loop_inv la lb queue blocks =
     (sorted_wrt apart queue \<and> sorted_wrt apart (map block_region blocks)
      \<and> (\<forall>r\<in>set queue. \<forall>m\<in>set blocks. apart r (block_region m))
      \<and> (\<forall>r\<in>set queue. inside r (0, la, 0, lb))
      \<and> (\<forall>m\<in>set blocks. snd (snd m) \<noteq> 0 \<and> inside (block_region m) (0, la, 0, lb)))"

definition precedes :: "match \<Rightarrow> match \<Rightarrow> bool" where
  "precedes m m' = before (block_region m) (block_region m')"

text \<open>
  \<open>write_fault\<close> is the exception the write of a row raises in a state, if any: that
  of \<^verbatim>\<open>execute\<close>, and otherwise that of \<^verbatim>\<open>commit\<close>.
\<close>

definition write_fault :: "state \<Rightarrow> exn option" where
  "write_fault s = (case execute_fault s of Some e \<Rightarrow> Some e | None \<Rightarrow> commit_fault s)"

subsection \<open>Example inputs\<close>

text \<open>
  Concrete inputs for the closed theorems below: a readable text file, an empty
  state, a stand-in for the digest, the two kinds of event, a few states around
  the file \<^verbatim>\<open>/w/notes.txt\<close>, and a file whose name holds the surrogate \<open>0xDC80\<close>, as a
  name with the byte \<open>0x80\<close> is decoded.
\<close>

definition text_file :: "int \<Rightarrow> pystr \<Rightarrow> fsnode" where
  "text_file n content =
     \<lparr>is_dir = False, st_size = n, strict_read = None, lenient_read = Inr content\<rparr>"

definition initial_state :: state where
  "initial_state =
     \<lparr>processing = {}, files = Map.empty, shadows = Map.empty, metas = Map.empty,
      rows = [], pending = [], clock = py ''2024-05-01T12:00:00'',
      execute_fault = None, commit_fault = None, shadow_stat_fault = None,
      shadow_fault = None\<rparr>"

definition example_digest :: "pystr \<Rightarrow> pystr" where
  "example_digest path = py ''md5:'' @ path"

definition modified :: "pystr \<Rightarrow> event" where
  "modified path = \<lparr>src_path = path, is_directory = False\<rparr>"

definition created :: "pystr \<Rightarrow> event" where
  "created path = \<lparr>src_path = path, is_directory = False\<rparr>"

definition notes_txt :: pystr where
  "notes_txt = py ''/w/notes.txt''"

definition tracked_state :: state where
  "tracked_state = initial_state
     \<lparr>files := [notes_txt \<mapsto> text_file 8 (py ''a\<newline>x\<newline>c\<newline>d\<newline>'')],
      shadows := [example_digest notes_txt \<mapsto> text_file 6 (py ''a\<newline>b\<newline>c\<newline>'')],
      metas := [example_digest notes_txt \<mapsto> (notes_txt, 6)]\<rparr>"


definition guarded_state :: state where
  "guarded_state = tracked_state\<lparr>processing := {notes_txt}\<rparr>"

definition db_down_state :: state where
  "db_down_state = tracked_state\<lparr>execute_fault := Some OperationalError\<rparr>"


definition odd_name :: pystr where
  "odd_name = py ''/w/'' @ [56448] @ py ''.txt''"

definition odd_state :: state where
  "odd_state = initial_state\<lparr>files := [odd_name \<mapsto> text_file 2 (py ''hi'')]\<rparr>"

definition git_config :: pystr where
  "git_config = py ''/w/.git/config''"

definition git_state :: state where
  "git_state = initial_state\<lparr>files := [git_config \<mapsto> text_file 5 (py ''[core'')]\<rparr>"

definition hidden_root :: pystr where
  "hidden_root = py ''/home/u/.config/proj''"

definition main_py :: pystr where
  "main_py = hidden_root @ py ''/'' @ py ''src/main.py''"

definition hidden_state :: state where
  "hidden_state = initial_state\<lparr>files := [main_py \<mapsto> text_file 3 (py ''x=1'')]\<rparr>"

section \<open>Properties\<close>

subsection \<open>What each operation leaves unchanged\<close>

lemma should_process_files:
  "files s' = files s \<Longrightarrow> should_process path s' = should_process path s"
  by (simp add: should_process_def)

lemma should_process_processing [simp]:
  "should_process path (s\<lparr>processing := X\<rparr>) = should_process path s"
  by (simp add: should_process_def)

lemma should_process_True_file:
  "should_process path s = Inr True \<Longrightarrow> \<exists>node. files s path = Some node \<and> \<not> is_dir node"
  by (auto simp: should_process_def split: if_splits option.splits)

lemma magnitude_Some: "\<exists>m. magnitude (Some b) a = Inr m"
  by (simp add: magnitude_def)

lemma shadow_reads_processing [simp]:
  "has_shadow digest path (s\<lparr>processing := X\<rparr>) = has_shadow digest path s"
  "get_shadow_content digest path (s\<lparr>processing := X\<rparr>) = get_shadow_content digest path s"
  "get_shadow_size digest path (s\<lparr>processing := X\<rparr>) = get_shadow_size digest path s"
  by (simp_all add: has_shadow_def get_shadow_content_def get_shadow_size_def
      split: sum.splits option.splits)

lemma write_fault_processing [simp]: "write_fault (s\<lparr>processing := X\<rparr>) = write_fault s"
  by (simp add: write_fault_def split: option.splits)

lemma write_fault_None:
  "write_fault s = None \<longleftrightarrow> execute_fault s = None \<and> commit_fault s = None"
  by (simp add: write_fault_def split: option.splits)

lemma shadow_content_facts:
  assumes "get_shadow_content digest path s = Some old"
  shows "encodable path \<and> has_shadow digest path s = Inr True
         \<and> (\<exists>b. get_shadow_size digest path s = Some b)"
  using assms
  by (auto simp: get_shadow_content_def has_shadow_def get_shadow_size_def get_shadow_path_def
      split: if_splits option.splits sum.splits)

lemma create_shadow_rows [simp]:
  "rows (snd (create_shadow digest path s)) = rows s"
  "pending (snd (create_shadow digest path s)) = pending s"
  by (simp_all add: create_shadow_def split: option.splits sum.splits)

lemma create_shadow_processing [simp]:
  "processing (snd (create_shadow digest path s)) = processing s"
  by (simp add: create_shadow_def split: option.splits sum.splits)

lemma create_shadow_ok:
  "files s path = Some node \<Longrightarrow> \<not> is_dir node \<Longrightarrow> encodable path \<Longrightarrow> shadow_fault s = None \<Longrightarrow>
   create_shadow digest path s =
     (True, s\<lparr>shadows := (shadows s)(digest path \<mapsto> node),
              metas := (metas s)(digest path \<mapsto> (path, st_size node))\<rparr>)"
  by (simp add: create_shadow_def get_shadow_path_def)

lemma create_shadow_unencodable:
  "\<not> encodable path \<Longrightarrow> create_shadow digest path s = (False, s)"
  by (simp add: create_shadow_def get_shadow_path_def split: option.splits)

lemma record_change_processing [simp]:
  "processing (snd (record_change path etype sb sa added deleted s)) = processing s"
  by (simp add: record_change_def Let_def split: option.splits)

lemma record_change_ok:
  "execute_fault s = None \<Longrightarrow> commit_fault s = None \<Longrightarrow>
   record_change path etype sb sa added deleted s =
     (Inr (clock s),
      s\<lparr>rows := rows s @ pending s @
         [\<lparr>timestamp = clock s, file_path = path, event_type = etype,
           size_before = sb, size_after = sa,
           size_change = (case sb of None \<Rightarrow> None
                          | Some b \<Rightarrow> (case sa of None \<Rightarrow> None | Some a \<Rightarrow> Some (a - b))),
           lines_added = added, lines_deleted = deleted,
           lines_changed = added + deleted\<rparr>],
        pending := []\<rparr>)"
  by (simp add: record_change_def Let_def)

text \<open>
  A write that fails raises, commits nothing and changes nothing but the open
  transaction: it gains the row when \<^verbatim>\<open>execute\<close> ran and \<^verbatim>\<open>commit\<close> failed, and nothing
  when \<^verbatim>\<open>execute\<close> failed.
\<close>

lemma record_change_fails:
  assumes "write_fault s = Some e"
  shows "record_change path etype sb sa added deleted s
         = (Inl e,
            s\<lparr>pending := pending s @
               (if execute_fault s = None
                then [\<lparr>timestamp = clock s, file_path = path, event_type = etype,
                       size_before = sb, size_after = sa,
                       size_change = (case sb of None \<Rightarrow> None
                                      | Some b \<Rightarrow> (case sa of None \<Rightarrow> None | Some a \<Rightarrow> Some (a - b))),
                       lines_added = added, lines_deleted = deleted,
                       lines_changed = added + deleted\<rparr>]
                else [])\<rparr>)"
proof (cases "execute_fault s")
  case None
  then have "commit_fault s = Some e" using assms by (simp add: write_fault_def)
  then show ?thesis using None by (simp add: record_change_def Let_def)
next
  case (Some e')
  then have "e' = e" using assms by (simp add: write_fault_def)
  then show ?thesis using Some by (simp add: record_change_def Let_def)
qed

lemma compare_with_shadow_processing [simp]:
  "processing (snd (compare_with_shadow digest path safter new s)) = processing s"
proof -
  have "processing s' = processing s"
    if "record_change path (py ''modified'') (get_shadow_size digest path s) (Some safter) a d s = (r, s')"
    for a d r s'
    using record_change_processing[of path "py ''modified''" "get_shadow_size digest path s" "Some safter" a d s] that
    by simp
  then show ?thesis
    by (auto simp: compare_with_shadow_def Let_def split: option.splits sum.splits prod.splits)
qed

lemma modification_body_processing [simp]:
  "processing (snd (modification_body digest path s)) = processing s"
proof -
  have "processing s' = processing s" if "compare_with_shadow digest path n c s = (r, s')" for n c r s'
    using compare_with_shadow_processing[of digest path n c s] that by simp
  then show ?thesis
    by (auto simp: modification_body_def update_shadow_def split: option.splits sum.splits prod.splits)
qed

subsection \<open>Filtered events\<close>

lemma rejected_part_filters:
  assumes "seg \<in> set (path_parts path)" "part_rejected seg"
  shows "should_process path s = Inr False"
proof -
  have "list_ex part_rejected (path_parts path)"
    using assms by (auto simp: list_ex_iff)
  then show ?thesis by (simp add: should_process_def)
qed

lemma filtered_modification:
  assumes "should_process path s = Inr False"
  shows "process_modification digest path s = (Inr (), s)"
proof (cases "path \<in> processing s")
  case True
  then show ?thesis by (simp add: process_modification_def)
next
  case False
  then have "insert path (processing s) - {path} = processing s" by auto
  then show ?thesis using assms False
    by (simp add: process_modification_def modification_body_def)
qed

lemma filtered_creation:
  assumes "should_process path s = Inr False"
  shows "process_creation digest path s = (Inr (), s)"
  using assms by (simp add: process_creation_def)

lemma filtered_events:
  assumes "should_process (src_path ev) s = Inr False"
  shows "on_created digest ev s = (Inr (), s) \<and> on_modified digest ev s = (Inr (), s)"
  using filtered_creation[OF assms] filtered_modification[OF assms]
  by (simp add: on_created_def on_modified_def)

lemma split_on_nonempty: "split_on sep zs \<noteq> []"
  by (induction zs) (auto split: list.splits)

lemma split_on_append:
  "split_on sep (xs @ sep # ys) = split_on sep xs @ split_on sep ys"
proof (induction xs)
  case Nil
  show ?case by simp
next
  case (Cons x xs)
  show ?case using Cons split_on_nonempty[of sep xs] split_on_nonempty[of sep "xs @ sep # ys"]
    by (auto split: list.splits)
qed

subsection \<open>The steps that write\<close>

lemma creation_step:
  assumes "should_process path s = Inr True"
    and "files s path = Some node"
    and "encodable path"
    and "execute_fault s = None" and "commit_fault s = None" and "shadow_fault s = None"
  shows "process_creation digest path s =
           (Inr (), s\<lparr>rows := rows s @ pending s @
                        [\<lparr>timestamp = clock s, file_path = path, event_type = py ''created'',
                          size_before = None, size_after = Some (st_size node), size_change = None,
                          lines_added = 0, lines_deleted = 0, lines_changed = 0\<rparr>],
                      pending := [],
                      shadows := (shadows s)(digest path \<mapsto> node),
                      metas := (metas s)(digest path \<mapsto> (path, st_size node))\<rparr>)"
proof -
  have nd: "\<not> is_dir node" using should_process_True_file[OF assms(1)] assms(2) by auto
  let ?row = "\<lparr>timestamp = clock s, file_path = path, event_type = py ''created'',
                size_before = None, size_after = Some (st_size node), size_change = None,
                lines_added = 0, lines_deleted = 0, lines_changed = 0\<rparr>"
  let ?s = "s\<lparr>rows := rows s @ pending s @ [?row], pending := []\<rparr>"
  have rc: "record_change path (py ''created'') None (Some (st_size node)) 0 0 s = (Inr (clock s), ?s)"
    using record_change_ok[OF assms(4,5)] by simp
  have cs: "create_shadow digest path ?s =
     (True, ?s\<lparr>shadows := (shadows ?s)(digest path \<mapsto> node),
              metas := (metas ?s)(digest path \<mapsto> (path, st_size node))\<rparr>)"
    by (rule create_shadow_ok) (use assms nd in simp_all)
  show ?thesis
    using assms(1,2) rc cs by (simp add: process_creation_def)
qed

lemma compare_with_shadow_records:
  assumes "get_shadow_content digest path s = Some old"
    and "execute_fault s = None" and "commit_fault s = None"
  shows "\<exists>row. compare_with_shadow digest path safter new s
                 = (Inr (), s\<lparr>rows := rows s @ pending s @ [row], pending := []\<rparr>)
              \<and> file_path row = path \<and> event_type row = py ''modified''
              \<and> size_after row = Some safter
              \<and> lines_added row = fst (compute_diff old new)
              \<and> lines_deleted row = snd (compute_diff old new)
              \<and> lines_changed row = fst (compute_diff old new) + snd (compute_diff old new)"
proof -
  obtain b where b: "get_shadow_size digest path s = Some b"
    using shadow_content_facts[OF assms(1)] by blast
  obtain m where m: "magnitude (Some b) safter = Inr m"
    using magnitude_Some by blast
  let ?row = "\<lparr>timestamp = clock s, file_path = path, event_type = py ''modified'',
                size_before = Some b, size_after = Some safter, size_change = Some (safter - b),
                lines_added = fst (compute_diff old new),
                lines_deleted = snd (compute_diff old new),
                lines_changed = fst (compute_diff old new) + snd (compute_diff old new)\<rparr>"
  have "compare_with_shadow digest path safter new s
        = (Inr (), s\<lparr>rows := rows s @ pending s @ [?row], pending := []\<rparr>)"
    using assms(1) b m
    by (simp add: compare_with_shadow_def record_change_ok[OF assms(2,3)] case_prod_unfold)
  then show ?thesis by (intro exI[of _ ?row]) simp
qed

lemma compare_with_shadow_fails:
  assumes "get_shadow_content digest path s = Some old" and "write_fault s = Some e"
  shows "\<exists>row. compare_with_shadow digest path safter new s
                 = (Inl e, s\<lparr>pending := pending s @ (if execute_fault s = None then [row] else [])\<rparr>)
              \<and> file_path row = path \<and> event_type row = py ''modified''
              \<and> lines_added row = fst (compute_diff old new)
              \<and> lines_deleted row = snd (compute_diff old new)"
proof -
  obtain b where b: "get_shadow_size digest path s = Some b"
    using shadow_content_facts[OF assms(1)] by blast
  obtain m where m: "magnitude (Some b) safter = Inr m"
    using magnitude_Some by blast
  let ?row = "\<lparr>timestamp = clock s, file_path = path, event_type = py ''modified'',
                size_before = Some b, size_after = Some safter, size_change = Some (safter - b),
                lines_added = fst (compute_diff old new),
                lines_deleted = snd (compute_diff old new),
                lines_changed = fst (compute_diff old new) + snd (compute_diff old new)\<rparr>"
  have "compare_with_shadow digest path safter new s
        = (Inl e, s\<lparr>pending := pending s @ (if execute_fault s = None then [?row] else [])\<rparr>)"
    using assms(1) b m
    by (simp add: compare_with_shadow_def record_change_fails[OF assms(2)] case_prod_unfold Let_def)
  then show ?thesis by (intro exI[of _ ?row]) simp
qed

lemma modification_record_failure:
  assumes "path \<notin> processing s"
    and "should_process path s = Inr True"
    and "files s path = Some node" "lenient_read node = Inr new"
    and "get_shadow_content digest path s = Some old"
    and "write_fault s = Some e"
  shows "\<exists>row. process_modification digest path s
                 = (Inl e, s\<lparr>pending := pending s @ (if execute_fault s = None then [row] else [])\<rparr>)
              \<and> file_path row = path \<and> event_type row = py ''modified''
              \<and> lines_added row = fst (compute_diff old new)
              \<and> lines_deleted row = snd (compute_diff old new)"
proof -
  let ?s = "s\<lparr>processing := insert path (processing s)\<rparr>"
  have c: "get_shadow_content digest path ?s = Some old" and w: "write_fault ?s = Some e"
    using assms(5,6) by simp_all
  obtain row where
    cmp: "compare_with_shadow digest path (st_size node) new ?s
          = (Inl e, ?s\<lparr>pending := pending ?s @ (if execute_fault ?s = None then [row] else [])\<rparr>)"
    and row: "file_path row = path" "event_type row = py ''modified''"
      "lines_added row = fst (compute_diff old new)" "lines_deleted row = snd (compute_diff old new)"
    using compare_with_shadow_fails[OF c w] by blast
  have hs: "has_shadow digest path ?s = Inr True"
    using shadow_content_facts[OF c] by blast
  have "modification_body digest path ?s
        = (Inl e, ?s\<lparr>pending := pending ?s @ (if execute_fault ?s = None then [row] else [])\<rparr>)"
    using assms(2,3,4) hs cmp by (simp add: modification_body_def)
  moreover have "insert path (processing s) - {path} = processing s" using assms(1) by auto
  ultimately have "process_modification digest path s
        = (Inl e, s\<lparr>pending := pending s @ (if execute_fault s = None then [row] else [])\<rparr>)"
    using assms(1) by (simp add: process_modification_def)
  with row show ?thesis by blast
qed


text \<open>
  A modification event for a path whose name does not encode raises in \<^verbatim>\<open>has_shadow\<close>,
  after the file was read and before anything is written; the guard is released.
\<close>

lemma unencodable_modification_raises:
  assumes "path \<notin> processing s"
    and "should_process path s = Inr True"
    and "files s path = Some node" "lenient_read node = Inr content"
    and "\<not> encodable path"
  shows "process_modification digest path s = (Inl UnicodeEncodeError, s)"
proof -
  let ?s = "s\<lparr>processing := insert path (processing s)\<rparr>"
  have "has_shadow digest path ?s = Inl UnicodeEncodeError"
    using assms(5) by (simp add: has_shadow_def get_shadow_path_def)
  then have "modification_body digest path ?s = (Inl UnicodeEncodeError, ?s)"
    using assms(2,3,4) by (simp add: modification_body_def)
  moreover have "insert path (processing s) - {path} = processing s" using assms(1) by auto
  ultimately show ?thesis using assms(1) by (simp add: process_modification_def)
qed

subsection \<open>The example inputs evaluated\<close>

lemma parts_notes_txt: "path_parts notes_txt = [py ''/'', py ''w'', py ''notes.txt'']"
  by (simp add: notes_txt_def path_parts_def path_root_def startswith_def py_def)

lemma notes_not_rejected: "\<not> list_ex part_rejected (path_parts notes_txt)"
  by (simp add: parts_notes_txt part_rejected_def excluded_def startswith_def) (simp add: py_def)

lemma should_process_notes:
  "files s notes_txt = Some (text_file n c) \<Longrightarrow> should_process notes_txt s = Inr True"
  by (simp add: should_process_def notes_not_rejected text_file_def)

lemma encodable_notes: "encodable notes_txt"
  by (simp add: encodable_def notes_txt_def py_def)

lemma text_file_read: "lenient_read (text_file n c) = Inr c"
  by (simp add: text_file_def)

lemma odd_facts:
  "files odd_state odd_name = Some (text_file 2 (py ''hi''))"
  "\<not> encodable odd_name"
  by (simp_all add: odd_state_def odd_name_def encodable_def)

lemma should_process_odd: "should_process odd_name odd_state = Inr True"
proof -
  have "path_parts odd_name = [py ''/'', py ''w'', [56448] @ py ''.txt'']"
    by (simp add: odd_name_def path_parts_def path_root_def startswith_def py_def)
  then have "\<not> list_ex part_rejected (path_parts odd_name)"
    by (simp add: part_rejected_def excluded_def startswith_def) (simp add: py_def)
  then show ?thesis
    by (simp add: should_process_def odd_facts text_file_def)
qed

lemma tracked_facts:
  "processing tracked_state = {}"
  "files tracked_state notes_txt = Some (text_file 8 (py ''a\<newline>x\<newline>c\<newline>d\<newline>''))"
  "shadows tracked_state (example_digest notes_txt) = Some (text_file 6 (py ''a\<newline>b\<newline>c\<newline>''))"
  "execute_fault tracked_state = None" "commit_fault tracked_state = None"
  "shadow_fault tracked_state = None" "rows tracked_state = []" "pending tracked_state = []"
  "shadow_stat_fault tracked_state = None"
  by (simp_all add: tracked_state_def initial_state_def)

lemma tracked_content:
  "shadows s (example_digest notes_txt) = Some (text_file n c) \<Longrightarrow> shadow_stat_fault s = None \<Longrightarrow>
   get_shadow_content example_digest notes_txt s = Some c"
  by (simp add: get_shadow_content_def get_shadow_path_def encodable_notes text_file_read)

lemma old_lines_abc:
  "splitlines (py ''a\<newline>b\<newline>c\<newline>'') = [[97, 10], [98, 10], [99, 10]]"
  by (simp add: splitlines_def py_def is_linebreak_def)

lemma new_lines_axcd:
  "splitlines (py ''a\<newline>x\<newline>c\<newline>d\<newline>'') = [[97, 10], [120, 10], [99, 10], [100, 10]]"
  by (simp add: splitlines_def py_def is_linebreak_def)

lemma blocks_abc_axcd:
  "matching_loop [[97, 10], [98, 10], [99, 10]] [[97, 10], [120, 10], [99, 10], [100, 10 :: nat]]
     (chain_b [[97, 10], [120, 10], [99, 10], [100, 10]]) [(0, 3, 0, 4)] [] = [(0, 0, 1), (2, 2, 1)]"
  by code_simp

lemma opcodes_abc_axcd:
  "get_opcodes [[97, 10], [98, 10], [99, 10]] [[97, 10], [120, 10], [99, 10], [100, 10 :: nat]]
   = [(Equal, 0, 1, 0, 1), (Replace, 1, 2, 1, 2), (Equal, 2, 3, 2, 3), (Insert, 3, 3, 3, 4)]"
  unfolding get_opcodes_def get_matching_blocks_def Let_def
  by (simp add: blocks_abc_axcd) code_simp

lemma diff_abc_axcd:
  "unified_diff [[97, 10], [98, 10], [99, 10]] [[97, 10], [120, 10], [99, 10], [100, 10]] []
   = [py ''--- '', py ''+++ '', py ''@@ -1,3 +1,4 @@'', py '' a\<newline>'', py ''-b\<newline>'',
      py ''+x\<newline>'', py '' c\<newline>'', py ''+d\<newline>'']"
  unfolding unified_diff_def get_grouped_opcodes_def Let_def opcodes_abc_axcd
  by code_simp

lemma compute_diff_abc_axcd:
  "compute_diff (py ''a\<newline>b\<newline>c\<newline>'') (py ''a\<newline>x\<newline>c\<newline>d\<newline>'') = (2, 1)"
  unfolding compute_diff_def Let_def old_lines_abc new_lines_axcd diff_abc_axcd
  by code_simp

subsection \<open>Record correctness end to end\<close>

text \<open>
  Claim C1. When a file whose shadow reads \<^verbatim>\<open>"a\nb\nc\n"\<close> now reads \<^verbatim>\<open>"a\nx\nc\nd\n"\<close>, and the
  modification event for it is processed (the path is not guarded, passes the filter,
  and the database accepts the row), the event commits one row of its own, the last
  committed row: it is of type \<^verbatim>\<open>modified\<close>, with \<open>lines_added = 2\<close>, \<open>lines_deleted = 1\<close>
  and \<open>lines_changed = 3\<close>. The rows before it are those committed earlier and those
  an earlier failed commit left in the open transaction, none in a state without
  such a failure.
\<close>

theorem record_correctness_end_to_end:
  assumes "path \<notin> processing s"
    and "should_process path s = Inr True"
    and "files s path = Some node"
    and "lenient_read node = Inr (py ''a\<newline>x\<newline>c\<newline>d\<newline>'')"
    and "get_shadow_content digest path s = Some (py ''a\<newline>b\<newline>c\<newline>'')"
    and "execute_fault s = None" and "commit_fault s = None"
  shows "\<exists>row. rows (snd (on_modified digest (modified path) s)) = rows s @ pending s @ [row]
           \<and> file_path row = path \<and> event_type row = py ''modified''
           \<and> lines_added row = 2 \<and> lines_deleted row = 1 \<and> lines_changed row = 3"
proof -
  let ?s = "s\<lparr>processing := insert path (processing s)\<rparr>"
  let ?new = "py ''a\<newline>x\<newline>c\<newline>d\<newline>''"
  have c: "get_shadow_content digest path ?s = Some (py ''a\<newline>b\<newline>c\<newline>'')"
    and f: "execute_fault ?s = None" "commit_fault ?s = None"
    using assms(5,6,7) by simp_all
  obtain row where
    cmp: "compare_with_shadow digest path (st_size node) ?new ?s
          = (Inr (), ?s\<lparr>rows := rows ?s @ pending ?s @ [row], pending := []\<rparr>)"
    and row: "file_path row = path" "event_type row = py ''modified''"
      "lines_added row = 2" "lines_deleted row = 1" "lines_changed row = 3"
    using compare_with_shadow_records[OF c f, of "st_size node" ?new]
    by (auto simp: compute_diff_abc_axcd)
  have hs: "has_shadow digest path ?s = Inr True"
    using shadow_content_facts[OF c] by blast
  have sp: "should_process path ?s = Inr True"
    using assms(2) by simp
  have "modification_body digest path ?s =
        (Inr (), snd (update_shadow digest path
                        (?s\<lparr>rows := rows ?s @ pending ?s @ [row], pending := []\<rparr>)))"
    using sp assms(3,4) hs cmp by (simp add: modification_body_def)
  then have "rows (snd (on_modified digest (modified path) s)) = rows s @ pending s @ [row]"
    using assms(1)
    by (simp add: on_modified_def modified_def process_modification_def update_shadow_def)
  with row show ?thesis by blast
qed

theorem record_correctness_end_to_end_witness:
  "notes_txt \<notin> processing tracked_state
   \<and> should_process notes_txt tracked_state = Inr True
   \<and> get_shadow_content example_digest notes_txt tracked_state = Some (py ''a\<newline>b\<newline>c\<newline>'')
   \<and> execute_fault tracked_state = None \<and> commit_fault tracked_state = None
   \<and> (\<exists>row. rows (snd (on_modified example_digest (modified notes_txt) tracked_state)) = [row]
           \<and> file_path row = notes_txt \<and> event_type row = py ''modified''
           \<and> lines_added row = 2 \<and> lines_deleted row = 1 \<and> lines_changed row = 3)"
proof -
  have a: "notes_txt \<notin> processing tracked_state" by (simp add: tracked_facts)
  have b: "should_process notes_txt tracked_state = Inr True"
    by (rule should_process_notes) (rule tracked_facts)
  have c: "get_shadow_content example_digest notes_txt tracked_state = Some (py ''a\<newline>b\<newline>c\<newline>'')"
    by (rule tracked_content) (rule tracked_facts)+
  from record_correctness_end_to_end[OF a b tracked_facts(2) text_file_read c tracked_facts(4,5)]
    a b c tracked_facts(4,5,7,8)
  show ?thesis by simp
qed

subsection \<open>Magnitude classification\<close>

text \<open>
  Claim C2. The magnitude rules are tried in order and the first that matches decides:
  from 100 bytes to 0 the result is the zeroed-out tag alone, from 100 to 40 the large
  deletion tag with 60, from 100 to 250 the large addition tag with 150, and from 100 to
  90 no tag.
\<close>

theorem magnitude_priority:
  "magnitude (Some 100) 0 = Inr (py '' [FILE ZEROED OUT!]'')
   \<and> magnitude (Some 100) 40 = Inr (py '' [LARGE DELETION: -60 bytes]'')
   \<and> magnitude (Some 100) 250 = Inr (py '' [LARGE ADDITION: +150 bytes]'')
   \<and> magnitude (Some 100) 90 = Inr []"
  by (simp add: magnitude_def str_int_def py_def)

subsection \<open>The line counts of a diff\<close>

text \<open>
  The counting loop counts the \<^verbatim>\<open>+\<close> and \<^verbatim>\<open>-\<close> lines of the hunks. The opcodes that
  are not \<^verbatim>\<open>equal\<close> survive the grouping unchanged, the matching blocks form a chain,
  and so the opcodes partition both sequences: for plain texts the lines added are the
  lines of the new text outside the matching blocks, and the lines deleted are the
  lines of the old text outside them.
\<close>

lemma count_loop_filter:
  "count_loop diff (added, deleted) =
     (added + int (length (filter counts_added diff)),
      deleted + int (length (filter counts_deleted diff)))"
proof (induction diff arbitrary: added deleted)
  case Nil
  show ?case by simp
next
  case (Cons line diff)
  have ex: "startswith line (py ''+'') \<Longrightarrow> \<not> startswith line (py ''-'')"
    by (cases line) (auto simp: startswith_def py_def)
  show ?case using Cons ex by (auto simp: counts_added_def counts_deleted_def)
qed

lemma counts_added_plus: "counts_added (py ''+'' @ line) = (\<not> startswith line (py ''++''))"
  by (cases line rule: list.exhaust; cases "tl line")
     (auto simp: counts_added_def startswith_def py_def)

lemma counts_deleted_minus: "counts_deleted (py ''-'' @ line) = (\<not> startswith line (py ''--''))"
  by (cases line rule: list.exhaust; cases "tl line")
     (auto simp: counts_deleted_def startswith_def py_def)

lemma counts_other [simp]:
  "\<not> counts_added (py ''-'' @ line)" "\<not> counts_deleted (py ''+'' @ line)"
  "\<not> counts_added (py '' '' @ line)" "\<not> counts_deleted (py '' '' @ line)"
  "\<not> counts_added (py ''@@ -'' @ line)" "\<not> counts_deleted (py ''@@ -'' @ line)"
  "\<not> counts_added (py ''--- '' @ line)" "\<not> counts_deleted (py ''--- '' @ line)"
  "\<not> counts_added (py ''+++ '' @ line)" "\<not> counts_deleted (py ''+++ '' @ line)"
  by (simp_all add: counts_added_def counts_deleted_def startswith_def py_def)

lemma changes_append [simp]: "changes (xs @ ys) = changes xs @ changes ys"
  by (simp add: changes_def)

lemma changes_Cons:
  "changes ((tag, r) # xs) = (if tag = Equal then changes xs else (tag, r) # changes xs)"
  by (simp add: changes_def)

lemma changes_Nil [simp]: "changes [] = []"
  by (simp add: changes_def)

lemma changes_group_loop:
  "changes (concat (group_loop n codes grp)) = changes grp @ changes codes"
proof (induction codes arbitrary: grp)
  case Nil
  show ?case
  proof (cases grp)
    case Nil
    then show ?thesis by simp
  next
    case (Cons c cs)
    then show ?thesis by (cases c) (auto simp: changes_Cons)
  qed
next
  case (Cons c codes)
  obtain tag i1 i2 j1 j2 where c: "c = (tag, i1, i2, j1, j2)" by (cases c) auto
  show ?case
  proof (cases "tag = Equal \<and> i2 - i1 > n + n")
    case True
    then show ?thesis
      using Cons[of "[(tag, max i1 (i2 - n), i2, max j1 (j2 - n), j2)]"]
      by (simp add: c changes_Cons)
  next
    case False
    then have "group_loop n (c # codes) grp = group_loop n codes (grp @ [c])"
      by (auto simp: c)
    then show ?thesis using Cons[of "grp @ [c]"] by (simp add: c changes_Cons)
  qed
qed

lemma changes_fix_leading [simp]: "changes (fix_leading n codes) = changes codes"
  by (auto simp: fix_leading_def changes_Cons split: list.splits tag.splits)

lemma changes_fix_trailing [simp]: "changes (fix_trailing n codes) = changes codes"
proof (cases "rev codes")
  case Nil
  then show ?thesis by (simp add: fix_trailing_def)
next
  case (Cons c rest)
  then have codes: "codes = rev rest @ [c]" by (metis rev.simps(2) rev_rev_ident)
  obtain tag i1 i2 j1 j2 where c: "c = (tag, i1, i2, j1, j2)" by (cases c) auto
  show ?thesis using Cons
    by (cases tag) (simp_all add: fix_trailing_def codes c changes_Cons)
qed

lemma changes_grouped:
  "changes (concat (get_grouped_opcodes a b n)) = changes (get_opcodes a b)"
  by (simp add: get_grouped_opcodes_def Let_def changes_group_loop changes_Cons)

lemma slice_length: "i2 \<le> length xs \<Longrightarrow> length (slice xs i1 i2) = i2 - i1"
  by (auto simp: slice_def)

lemma slice_subset: "set (slice xs i1 i2) \<subseteq> set xs"
  unfolding slice_def by (meson set_drop_subset set_take_subset subset_trans)

lemma added_in_opcode:
  assumes "\<forall>line\<in>set b. \<not> startswith line (py ''++'')"
    and "fst c \<noteq> Equal \<longrightarrow> op_within la (length b) c"
  shows "length (filter counts_added (opcode_lines a b c)) = ins_len c"
proof -
  obtain tag i1 i2 j1 j2 where c: "c = (tag, i1, i2, j1, j2)" by (cases c) auto
  have "\<forall>l\<in>set (map (\<lambda>line. py ''+'' @ line) (slice b j1 j2)). counts_added l"
    using assms(1) slice_subset[of b j1 j2] by (auto simp: counts_added_plus)
  then have all: "filter counts_added (map (\<lambda>line. py ''+'' @ line) (slice b j1 j2))
             = map (\<lambda>line. py ''+'' @ line) (slice b j1 j2)"
    by (rule filter_True)
  have none: "filter counts_added (map (\<lambda>line. py ''-'' @ line) xs) = []"
             "filter counts_added (map (\<lambda>line. py '' '' @ line) xs) = []" for xs
    by (simp_all add: filter_empty_conv)
  show ?thesis
    using assms(2) all none
    by (cases tag) (simp_all add: c ins_len_def op_within_def slice_length)
qed

lemma deleted_in_opcode:
  assumes "\<forall>line\<in>set a. \<not> startswith line (py ''--'')"
    and "fst c \<noteq> Equal \<longrightarrow> op_within (length a) lb c"
  shows "length (filter counts_deleted (opcode_lines a b c)) = del_len c"
proof -
  obtain tag i1 i2 j1 j2 where c: "c = (tag, i1, i2, j1, j2)" by (cases c) auto
  have "\<forall>l\<in>set (map (\<lambda>line. py ''-'' @ line) (slice a i1 i2)). counts_deleted l"
    using assms(1) slice_subset[of a i1 i2] by (auto simp: counts_deleted_minus)
  then have all: "filter counts_deleted (map (\<lambda>line. py ''-'' @ line) (slice a i1 i2))
             = map (\<lambda>line. py ''-'' @ line) (slice a i1 i2)"
    by (rule filter_True)
  have none: "filter counts_deleted (map (\<lambda>line. py ''+'' @ line) xs) = []"
             "filter counts_deleted (map (\<lambda>line. py '' '' @ line) xs) = []" for xs
    by (simp_all add: filter_empty_conv)
  show ?thesis
    using assms(2) all none
    by (cases tag) (simp_all add: c del_len_def op_within_def slice_length)
qed

lemma ins_len_changes: "sum_list (map ins_len (changes ops)) = sum_list (map ins_len ops)"
  by (induction ops) (auto simp: changes_def ins_len_def)

lemma del_len_changes: "sum_list (map del_len (changes ops)) = sum_list (map del_len ops)"
  by (induction ops) (auto simp: changes_def del_len_def)

lemma added_in_opcodes:
  assumes "\<forall>line\<in>set b. \<not> startswith line (py ''++'')"
    and "\<forall>c\<in>set ops. fst c \<noteq> Equal \<longrightarrow> op_within la (length b) c"
  shows "length (filter counts_added (concat (map (opcode_lines a b) ops))) = sum_list (map ins_len ops)"
  using assms(2)
proof (induction ops)
  case Nil
  show ?case by simp
next
  case (Cons c ops)
  have "length (filter counts_added (opcode_lines a b c)) = ins_len c"
    by (rule added_in_opcode[OF assms(1), where la = la]) (use Cons.prems in simp)
  then show ?case using Cons by simp
qed

lemma deleted_in_opcodes:
  assumes "\<forall>line\<in>set a. \<not> startswith line (py ''--'')"
    and "\<forall>c\<in>set ops. fst c \<noteq> Equal \<longrightarrow> op_within (length a) lb c"
  shows "length (filter counts_deleted (concat (map (opcode_lines a b) ops))) = sum_list (map del_len ops)"
  using assms(2)
proof (induction ops)
  case Nil
  show ?case by simp
next
  case (Cons c ops)
  have "length (filter counts_deleted (opcode_lines a b c)) = del_len c"
    by (rule deleted_in_opcode[OF assms(1), where lb = lb]) (use Cons.prems in simp)
  then show ?case using Cons by simp
qed

lemma group_lines_counts:
  "filter counts_added (group_lines a b [] grp)
     = filter counts_added (concat (map (opcode_lines a b) grp))"
  "filter counts_deleted (group_lines a b [] grp)
     = filter counts_deleted (concat (map (opcode_lines a b) grp))"
  by (simp_all add: group_lines_def split: prod.splits)

lemma added_in_groups:
  assumes "\<forall>line\<in>set b. \<not> startswith line (py ''++'')"
    and "\<forall>c\<in>set (concat groups). fst c \<noteq> Equal \<longrightarrow> op_within la (length b) c"
  shows "length (filter counts_added (concat (map (group_lines a b []) groups)))
         = sum_list (map ins_len (concat groups))"
  using assms(2)
proof (induction groups)
  case Nil
  show ?case by simp
next
  case (Cons grp groups)
  have "length (filter counts_added (concat (map (opcode_lines a b) grp))) = sum_list (map ins_len grp)"
    by (rule added_in_opcodes[OF assms(1), where la = la]) (use Cons.prems in simp)
  then show ?case using Cons by (simp add: group_lines_counts)
qed

lemma deleted_in_groups:
  assumes "\<forall>line\<in>set a. \<not> startswith line (py ''--'')"
    and "\<forall>c\<in>set (concat groups). fst c \<noteq> Equal \<longrightarrow> op_within (length a) lb c"
  shows "length (filter counts_deleted (concat (map (group_lines a b []) groups)))
         = sum_list (map del_len (concat groups))"
  using assms(2)
proof (induction groups)
  case Nil
  show ?case by simp
next
  case (Cons grp groups)
  have "length (filter counts_deleted (concat (map (opcode_lines a b) grp))) = sum_list (map del_len grp)"
    by (rule deleted_in_opcodes[OF assms(1), where lb = lb]) (use Cons.prems in simp)
  then show ?case using Cons by (simp add: group_lines_counts)
qed

lemma header_counts [simp]:
  "\<not> counts_added (py ''--- '')" "\<not> counts_deleted (py ''--- '')"
  "\<not> counts_added (py ''+++ '')" "\<not> counts_deleted (py ''+++ '')"
  by (simp_all add: counts_added_def counts_deleted_def startswith_def py_def)

lemma unified_diff_counts:
  "filter counts_added (unified_diff a b [])
     = filter counts_added (concat (map (group_lines a b []) (get_grouped_opcodes a b 3)))"
  "filter counts_deleted (unified_diff a b [])
     = filter counts_deleted (concat (map (group_lines a b []) (get_grouped_opcodes a b 3)))"
  by (simp_all add: unified_diff_def split: list.splits)

lemma grouped_within:
  assumes "\<forall>c\<in>set (get_opcodes a b). op_within la lb c"
  shows "\<forall>c\<in>set (concat (get_grouped_opcodes a b 3)). fst c \<noteq> Equal \<longrightarrow> op_within la lb c"
proof (intro ballI impI)
  fix c assume "c \<in> set (concat (get_grouped_opcodes a b 3))" "fst c \<noteq> Equal"
  then have "c \<in> set (changes (concat (get_grouped_opcodes a b 3)))"
    by (simp add: changes_def)
  then have "c \<in> set (changes (get_opcodes a b))"
    by (simp only: changes_grouped)
  then have "c \<in> set (get_opcodes a b)"
    by (simp add: changes_def)
  with assms show "op_within la lb c" by blast
qed

lemma diff_line_counts:
  assumes "\<forall>line\<in>set a. \<not> startswith line (py ''--'')"
    and "\<forall>line\<in>set b. \<not> startswith line (py ''++'')"
    and "\<forall>c\<in>set (get_opcodes a b). op_within (length a) (length b) c"
  shows "count_loop (unified_diff a b []) (0, 0) =
           (int (sum_list (map ins_len (get_opcodes a b))),
            int (sum_list (map del_len (get_opcodes a b))))"
proof -
  note w = grouped_within[OF assms(3)]
  have "length (filter counts_added (unified_diff a b []))
        = sum_list (map ins_len (concat (get_grouped_opcodes a b 3)))"
    by (simp add: unified_diff_counts added_in_groups[OF assms(2) w])
  also have "\<dots> = sum_list (map ins_len (get_opcodes a b))"
    using ins_len_changes[of "concat (get_grouped_opcodes a b 3)"] ins_len_changes[of "get_opcodes a b"]
    by (simp add: changes_grouped)
  finally have ad: "length (filter counts_added (unified_diff a b []))
        = sum_list (map ins_len (get_opcodes a b))" .
  have "length (filter counts_deleted (unified_diff a b []))
        = sum_list (map del_len (concat (get_grouped_opcodes a b 3)))"
    by (simp add: unified_diff_counts deleted_in_groups[OF assms(1) w])
  also have "\<dots> = sum_list (map del_len (get_opcodes a b))"
    using del_len_changes[of "concat (get_grouped_opcodes a b 3)"] del_len_changes[of "get_opcodes a b"]
    by (simp add: changes_grouped)
  finally have de: "length (filter counts_deleted (unified_diff a b []))
        = sum_list (map del_len (get_opcodes a b))" .
  show ?thesis by (simp add: count_loop_filter ad de)
qed

lemma chain_to_bounds: "chain_to i j la lb ms \<Longrightarrow> i \<le> la \<and> j \<le> lb"
  by (induction i j la lb ms rule: chain_to.induct) auto

lemma chain_to_mono:
  "chain_to i j la lb ms \<Longrightarrow> i' \<le> i \<Longrightarrow> j' \<le> j \<Longrightarrow> chain_to i' j' la lb ms"
  by (cases ms) auto

lemma len_simps [simp]:
  "del_len (Replace, i1, i2, j1, j2) = i2 - i1" "del_len (Delete, i1, i2, j1, j2) = i2 - i1"
  "del_len (Insert, i1, i2, j1, j2) = 0" "del_len (Equal, i1, i2, j1, j2) = 0"
  "ins_len (Replace, i1, i2, j1, j2) = j2 - j1" "ins_len (Insert, i1, i2, j1, j2) = j2 - j1"
  "ins_len (Delete, i1, i2, j1, j2) = 0" "ins_len (Equal, i1, i2, j1, j2) = 0"
  by (simp_all add: del_len_def ins_len_def)

lemma op_within_simp [simp]: "op_within la lb (tag, i1, i2, j1, j2) = (i2 \<le> la \<and> j2 \<le> lb)"
  by (simp add: op_within_def)

lemma matched_Cons [simp]: "matched ((i, j, k) # ms) = k + matched ms"
  by (simp add: matched_def)

lemma matched_Nil [simp]: "matched [] = 0"
  by (simp add: matched_def)

lemma opcodes_totals:
  assumes "chain_to i j la lb ms"
  shows "sum_list (map del_len (opcodes_loop i j (ms @ [(la, lb, 0)]))) + matched ms + i = la
       \<and> sum_list (map ins_len (opcodes_loop i j (ms @ [(la, lb, 0)]))) + matched ms + j = lb
       \<and> (\<forall>c\<in>set (opcodes_loop i j (ms @ [(la, lb, 0)])). op_within la lb c)"
  using assms
proof (induction ms arbitrary: i j)
  case Nil
  then show ?case by auto
next
  case (Cons m ms)
  obtain ai bj k where m: "m = (ai, bj, k)" by (cases m) auto
  from Cons.prems have le: "i \<le> ai" "j \<le> bj" and ch: "chain_to (ai + k) (bj + k) la lb ms"
    by (simp_all add: m)
  from chain_to_bounds[OF ch] have b: "ai + k \<le> la" "bj + k \<le> lb" by auto
  let ?rest = "opcodes_loop (ai + k) (bj + k) (ms @ [(la, lb, 0)])"
  from Cons.IH[OF ch]
  have d: "sum_list (map del_len ?rest) + matched ms + (ai + k) = la"
    and n: "sum_list (map ins_len ?rest) + matched ms + (bj + k) = lb"
    and w: "\<forall>c\<in>set ?rest. op_within la lb c" by auto
  let ?tagged = "if i < ai \<and> j < bj then [(Replace, i, ai, j, bj)]
      else if i < ai then [(Delete, i, ai, j, bj)]
      else if j < bj then [(Insert, i, ai, j, bj)]
      else []"
  let ?eq = "if k \<noteq> 0 then [(Equal, ai, ai + k, bj, bj + k)] else []"
  have unf: "opcodes_loop i j ((m # ms) @ [(la, lb, 0)]) = ?tagged @ ?eq @ ?rest"
    by (simp add: m)
  have td: "sum_list (map del_len ?tagged) = ai - i" using le by auto
  have ti: "sum_list (map ins_len ?tagged) = bj - j" using le by auto
  have ed: "sum_list (map del_len ?eq) = 0" "sum_list (map ins_len ?eq) = 0" by auto
  have tw: "\<forall>c\<in>set ?tagged. op_within la lb c" using b by auto
  have ew: "\<forall>c\<in>set ?eq. op_within la lb c" using b by auto
  have "sum_list (map del_len (?tagged @ ?eq @ ?rest)) + matched (m # ms) + i = la"
    unfolding map_append sum_list_append td ed using d le by (simp add: m)
  moreover have "sum_list (map ins_len (?tagged @ ?eq @ ?rest)) + matched (m # ms) + j = lb"
    unfolding map_append sum_list_append ti ed using n le by (simp add: m)
  moreover have "\<forall>c\<in>set (?tagged @ ?eq @ ?rest). op_within la lb c"
    using tw ew w unfolding set_append by blast
  ultimately show ?case unfolding unf by blast
qed

lemma apart_sym: "apart r r' = apart r' r"
  by (auto simp: apart_def)

lemma apart_inside: "apart r x \<Longrightarrow> inside r' r \<Longrightarrow> apart r' x"
  by (auto simp: apart_def before_def inside_def split: prod.splits)

lemma inside_trans: "inside r r' \<Longrightarrow> inside r' r'' \<Longrightarrow> inside r r''"
  by (auto simp: inside_def split: prod.splits)

lemma loop_inv_step:
  assumes inv: "loop_inv la lb ((alo, ahi, blo, bhi) # queue) blocks"
    and fl: "find_longest_match a b b2j alo ahi blo bhi = (i, j, k)" and k: "k \<noteq> 0"
  shows "loop_inv la lb
           ((if i + k < ahi \<and> j + k < bhi then [(i + k, ahi, j + k, bhi)] else [])
            @ (if alo < i \<and> blo < j then [(alo, i, blo, j)] else []) @ queue)
           (blocks @ [(i, j, k)])"
proof -
  let ?R = "(alo, ahi, blo, bhi)"
  let ?R1 = "(alo, i, blo, j)" and ?R2 = "(i + k, ahi, j + k, bhi)"
  let ?B = "block_region (i, j, k)"
  from find_longest_match_region[OF fl k]
  have rg: "alo \<le> i" "i + k \<le> ahi" "blo \<le> j" "j + k \<le> bhi" by auto
  have in1: "inside ?R1 ?R" and in2: "inside ?R2 ?R" and inB: "inside ?B ?R"
    using rg by (auto simp: inside_def block_region_def)
  have q: "sorted_wrt apart queue" and Rq: "\<forall>x\<in>set queue. apart ?R x"
    and bl: "sorted_wrt apart (map block_region blocks)"
    and Rb: "\<forall>m\<in>set blocks. apart ?R (block_region m)"
    and qb: "\<forall>r\<in>set queue. \<forall>m\<in>set blocks. apart r (block_region m)"
    and Rin: "inside ?R (0, la, 0, lb)" and qin: "\<forall>r\<in>set queue. inside r (0, la, 0, lb)"
    and bin: "\<forall>m\<in>set blocks. snd (snd m) \<noteq> 0 \<and> inside (block_region m) (0, la, 0, lb)"
    using inv by (auto simp: loop_inv_def)
  have a12: "apart ?R2 ?R1" "apart ?R1 ?B" "apart ?R2 ?B"
    by (auto simp: apart_def before_def block_region_def)
  have q1: "\<forall>x\<in>set queue. apart ?R1 x" and q2: "\<forall>x\<in>set queue. apart ?R2 x"
    and qB: "\<forall>x\<in>set queue. apart x ?B"
    using Rq apart_inside[OF _ in1] apart_inside[OF _ in2] apart_inside[OF _ inB] apart_sym
    by blast+
  have b1: "\<forall>m\<in>set blocks. apart ?R1 (block_region m)"
    and b2: "\<forall>m\<in>set blocks. apart ?R2 (block_region m)"
    and bB: "\<forall>m\<in>set blocks. apart (block_region m) ?B"
    using Rb apart_inside[OF _ in1] apart_inside[OF _ in2] apart_inside[OF _ inB] apart_sym
    by blast+
  let ?new = "(if i + k < ahi \<and> j + k < bhi then [?R2] else [])
            @ (if alo < i \<and> blo < j then [?R1] else [])"
  have new: "set ?new \<subseteq> {?R1, ?R2}" by auto
  have s1: "sorted_wrt apart (?new @ queue)"
    using q q1 q2 a12(1) by (auto simp: sorted_wrt_append)
  have s2: "sorted_wrt apart (map block_region (blocks @ [(i, j, k)]))"
    using bl bB by (auto simp: sorted_wrt_append)
  have s3: "\<forall>r\<in>set (?new @ queue). \<forall>m\<in>set (blocks @ [(i, j, k)]). apart r (block_region m)"
    using qb qB b1 b2 a12(2,3) by auto
  have s4: "\<forall>r\<in>set (?new @ queue). inside r (0, la, 0, lb)"
    using qin inside_trans[OF in1 Rin] inside_trans[OF in2 Rin] by auto
  have s5: "\<forall>m\<in>set (blocks @ [(i, j, k)]). snd (snd m) \<noteq> 0 \<and> inside (block_region m) (0, la, 0, lb)"
    using bin k inside_trans[OF inB Rin] by auto
  show ?thesis
    unfolding loop_inv_def using s1 s2 s3 s4 s5 by (simp only: append_assoc) 
qed

lemma loop_inv_skip:
  "loop_inv la lb (r # queue) blocks \<Longrightarrow> loop_inv la lb queue blocks"
  by (auto simp: loop_inv_def)

lemma matching_loop_inv:
  "loop_inv la lb queue blocks \<Longrightarrow> loop_inv la lb [] (matching_loop a b b2j queue blocks)"
proof (induction a b b2j queue blocks rule: matching_loop.induct)
  case (1 a b b2j matching_blocks)
  then show ?case by (simp add: matching_loop.simps)
next
  case (2 a b b2j alo ahi blo bhi queue matching_blocks)
  obtain i j k where fl: "find_longest_match a b b2j alo ahi blo bhi = (i, j, k)"
    by (cases "find_longest_match a b b2j alo ahi blo bhi") auto
  show ?case
  proof (cases "k = 0")
    case True
    have "loop_inv la lb [] (matching_loop a b b2j queue matching_blocks)"
      using "2.IH"(2)[OF fl[symmetric] refl] True loop_inv_skip[OF "2.prems"] by simp
    then show ?thesis using fl True by (simp add: matching_loop.simps)
  next
    case False
    note st = loop_inv_step[OF "2.prems" fl False]
    from "2.IH"(1)[OF fl[symmetric] refl False st]
    show ?thesis using fl False by (simp add: matching_loop.simps)
  qed
qed

lemma apart_blocks_distinct:
  assumes "sorted_wrt apart (map block_region ms)" "\<forall>m\<in>set ms. snd (snd m) \<noteq> 0"
  shows "distinct ms"
  using assms
proof (induction ms)
  case Nil
  show ?case by simp
next
  case (Cons m ms)
  have "\<not> apart (block_region m) (block_region m)"
    using Cons.prems(2) by (cases m) (auto simp: apart_def before_def block_region_def)
  then have "m \<notin> set ms" using Cons.prems(1) by auto
  then show ?case using Cons by simp
qed

lemma apart_blocks_pairwise:
  assumes "sorted_wrt apart (map block_region ms)" "x \<in> set ms" "y \<in> set ms" "x \<noteq> y"
  shows "apart (block_region x) (block_region y)"
  using assms
proof (induction ms)
  case Nil
  then show ?case by simp
next
  case (Cons m ms)
  have hd: "\<forall>z\<in>set ms. apart (block_region m) (block_region z)"
    and tl: "sorted_wrt apart (map block_region ms)"
    using Cons.prems(1) by auto
  show ?case
  proof (cases "x = m")
    case True
    then have "y \<in> set ms" using Cons.prems(3,4) by auto
    then show ?thesis using hd True by blast
  next
    case xm: False
    show ?thesis
    proof (cases "y = m")
      case True
      then have "x \<in> set ms" using Cons.prems(2) xm by auto
      then have "apart (block_region m) (block_region x)" using hd by blast
      then show ?thesis using True apart_sym by blast
    next
      case False
      then show ?thesis using Cons.IH[OF tl] Cons.prems(2,3,4) xm by auto
    qed
  qed
qed

lemma less_precedes:
  assumes "apart (block_region x) (block_region y)" "snd (snd y) \<noteq> 0" "x < y"
  shows "precedes x y"
proof -
  obtain i j k where x: "x = (i, j, k)" by (cases x) auto
  obtain i' j' k' where y: "y = (i', j', k')" by (cases y) auto
  have "\<not> before (block_region y) (block_region x)"
    using assms(2,3) by (auto simp: x y before_def block_region_def)
  with assms(1) show ?thesis by (simp add: precedes_def apart_def)
qed

lemma sorted_blocks_precede:
  assumes "sorted_wrt apart (map block_region ms)" "\<forall>m\<in>set ms. snd (snd m) \<noteq> 0"
  shows "sorted_wrt precedes (sort ms)"
proof -
  have d: "distinct (sort ms)" using apart_blocks_distinct[OF assms] by simp
  have "sorted_wrt (<) (sort ms)" using d by (simp add: strict_sorted_iff)
  moreover have "precedes x y" if "x \<in> set (sort ms)" "y \<in> set (sort ms)" "x < y" for x y
  proof -
    have "x \<in> set ms" "y \<in> set ms" "x \<noteq> y" using that by auto
    from apart_blocks_pairwise[OF assms(1) this] assms(2) \<open>y \<in> set ms\<close> that(3)
    show ?thesis by (intro less_precedes) auto
  qed
  ultimately show ?thesis by (rule sorted_wrt_mono_rel[rotated])
qed

lemma precedes_chain:
  assumes "sorted_wrt precedes ms"
    and "\<forall>m\<in>set ms. inside (block_region m) (i0, la, j0, lb)"
    and "i0 \<le> la" "j0 \<le> lb"
  shows "chain_to i0 j0 la lb ms"
  using assms
proof (induction ms arbitrary: i0 j0)
  case Nil
  then show ?case by simp
next
  case (Cons m ms)
  obtain i j k where m: "m = (i, j, k)" by (cases m) auto
  have im: "i0 \<le> i" "j0 \<le> j" "i + k \<le> la" "j + k \<le> lb"
    using Cons.prems(2) by (auto simp: m inside_def block_region_def)
  have "\<forall>x\<in>set ms. inside (block_region x) (i + k, la, j + k, lb)"
  proof
    fix x assume x: "x \<in> set ms"
    then have "precedes m x" using Cons.prems(1) by auto
    moreover have "inside (block_region x) (i0, la, j0, lb)" using Cons.prems(2) x by auto
    ultimately show "inside (block_region x) (i + k, la, j + k, lb)"
      by (cases x) (auto simp: m precedes_def before_def inside_def block_region_def)
  qed
  moreover have "sorted_wrt precedes ms" using Cons.prems(1) by simp
  ultimately have "chain_to (i + k) (j + k) la lb ms"
    using Cons.IH im by blast
  then show ?case using im by (simp add: m)
qed

lemma collapse_chain:
  "chain_to (i1 + k1) (j1 + k1) la lb ms \<Longrightarrow> chain_to i1 j1 la lb (collapse (i1, j1, k1) ms)"
proof (induction ms arbitrary: i1 j1 k1)
  case Nil
  then show ?case by auto
next
  case (Cons m ms)
  obtain i2 j2 k2 where m: "m = (i2, j2, k2)" by (cases m) auto
  from Cons.prems have le: "i1 + k1 \<le> i2" "j1 + k1 \<le> j2"
    and ch: "chain_to (i2 + k2) (j2 + k2) la lb ms" by (simp_all add: m)
  show ?case
  proof (cases "i1 + k1 = i2 \<and> j1 + k1 = j2")
    case True
    then have e: "i1 + (k1 + k2) = i2 + k2" "j1 + (k1 + k2) = j2 + k2" by auto
    have "chain_to (i1 + (k1 + k2)) (j1 + (k1 + k2)) la lb ms"
      unfolding e by (rule ch)
    from Cons.IH[OF this] True show ?thesis by (simp add: m)
  next
    case False
    have c2: "chain_to i2 j2 la lb (collapse (i2, j2, k2) ms)" by (rule Cons.IH[OF ch])
    have c1: "chain_to (i1 + k1) (j1 + k1) la lb (collapse (i2, j2, k2) ms)"
      by (rule chain_to_mono[OF c2 le])
    have c0: "chain_to i1 j1 la lb (collapse (i2, j2, k2) ms)"
      by (rule chain_to_mono[OF c2]) (use le in auto)
    show ?thesis using False c0 c1 by (auto simp: m)
  qed
qed

lemma matching_blocks_chain:
  "\<exists>ms. get_matching_blocks a b = ms @ [(length a, length b, 0)]
        \<and> chain_to 0 0 (length a) (length b) ms"
proof -
  let ?la = "length a" and ?lb = "length b"
  let ?raw = "matching_loop a b (chain_b b) [(0, ?la, 0, ?lb)] []"
  have "loop_inv ?la ?lb [(0, ?la, 0, ?lb)] []"
    by (simp add: loop_inv_def inside_def)
  from matching_loop_inv[OF this]
  have ap: "sorted_wrt apart (map block_region ?raw)"
    and ok: "\<forall>m\<in>set ?raw. snd (snd m) \<noteq> 0 \<and> inside (block_region m) (0, ?la, 0, ?lb)"
    by (auto simp: loop_inv_def)
  have "sorted_wrt precedes (sort ?raw)"
    by (rule sorted_blocks_precede[OF ap]) (use ok in blast)
  then have "chain_to 0 0 ?la ?lb (sort ?raw)"
    by (rule precedes_chain) (use ok in auto)
  then have "chain_to 0 0 ?la ?lb (collapse (0, 0, 0) (sort ?raw))"
    using collapse_chain[of 0 0 0 ?la ?lb "sort ?raw"] by simp
  then show ?thesis by (simp add: get_matching_blocks_def Let_def)
qed

lemma opcodes_balance:
  "\<exists>m. sum_list (map del_len (get_opcodes a b)) + m = length a
      \<and> sum_list (map ins_len (get_opcodes a b)) + m = length b
      \<and> (\<forall>c\<in>set (get_opcodes a b). op_within (length a) (length b) c)"
proof -
  obtain ms where ms: "get_matching_blocks a b = ms @ [(length a, length b, 0)]"
    and ch: "chain_to 0 0 (length a) (length b) ms"
    using matching_blocks_chain by blast
  from opcodes_totals[OF ch] show ?thesis
    unfolding get_opcodes_def ms by (intro exI[of _ "matched ms"]) simp
qed

lemma compute_diff_balance:
  assumes "plain_lines old" "plain_lines new"
  shows "fst (compute_diff old new) - snd (compute_diff old new)
         = int (length (splitlines new)) - int (length (splitlines old))"
proof -
  let ?a = "splitlines old" and ?b = "splitlines new"
  obtain m where d: "sum_list (map del_len (get_opcodes ?a ?b)) + m = length ?a"
    and n: "sum_list (map ins_len (get_opcodes ?a ?b)) + m = length ?b"
    and w: "\<forall>c\<in>set (get_opcodes ?a ?b). op_within (length ?a) (length ?b) c"
    using opcodes_balance by blast
  have pa: "\<forall>line\<in>set ?a. \<not> startswith line (py ''--'')"
    and pb: "\<forall>line\<in>set ?b. \<not> startswith line (py ''++'')"
    using assms by (auto simp: plain_lines_def list_all_iff)
  have "compute_diff old new =
          (int (sum_list (map ins_len (get_opcodes ?a ?b))),
           int (sum_list (map del_len (get_opcodes ?a ?b))))"
    using diff_line_counts[OF pa pb w] by (simp add: compute_diff_def Let_def)
  then show ?thesis using d n by simp
qed

subsection \<open>Diff symmetry\<close>

lemma lines_tide:
  "splitlines (py ''t\<newline>i\<newline>d\<newline>e\<newline>'') = [[116, 10], [105, 10], [100, 10], [101, 10]]"
  by (simp add: splitlines_def py_def is_linebreak_def)

lemma lines_diet:
  "splitlines (py ''d\<newline>i\<newline>e\<newline>t\<newline>'') = [[100, 10], [105, 10], [101, 10], [116, 10]]"
  by (simp add: splitlines_def py_def is_linebreak_def)

lemma blocks_tide_diet:
  "matching_loop [[116, 10], [105, 10], [100, 10], [101, 10]]
     [[100, 10], [105, 10], [101, 10], [116, 10 :: nat]]
     (chain_b [[100, 10], [105, 10], [101, 10], [116, 10]]) [(0, 4, 0, 4)] [] = [(0, 3, 1)]"
  by code_simp

lemma blocks_diet_tide:
  "matching_loop [[100, 10], [105, 10], [101, 10], [116, 10]]
     [[116, 10], [105, 10], [100, 10], [101, 10 :: nat]]
     (chain_b [[116, 10], [105, 10], [100, 10], [101, 10]]) [(0, 4, 0, 4)] []
   = [(0, 2, 1), (2, 3, 1)]"
  by code_simp

lemma opcodes_tide_diet:
  "get_opcodes [[116, 10], [105, 10], [100, 10], [101, 10]]
     [[100, 10], [105, 10], [101, 10], [116, 10 :: nat]]
   = [(Insert, 0, 0, 0, 3), (Equal, 0, 1, 3, 4), (Delete, 1, 4, 4, 4)]"
  unfolding get_opcodes_def get_matching_blocks_def Let_def
  by (simp add: blocks_tide_diet) code_simp

lemma opcodes_diet_tide:
  "get_opcodes [[100, 10], [105, 10], [101, 10], [116, 10]]
     [[116, 10], [105, 10], [100, 10], [101, 10 :: nat]]
   = [(Insert, 0, 0, 0, 2), (Equal, 0, 1, 2, 3), (Delete, 1, 2, 3, 3), (Equal, 2, 3, 3, 4),
      (Delete, 3, 4, 4, 4)]"
  unfolding get_opcodes_def get_matching_blocks_def Let_def
  by (simp add: blocks_diet_tide) code_simp

lemma diff_tide_diet:
  "unified_diff [[116, 10], [105, 10], [100, 10], [101, 10]]
     [[100, 10], [105, 10], [101, 10], [116, 10]] []
   = [py ''--- '', py ''+++ '', py ''@@ -1,4 +1,4 @@'', py ''+d\<newline>'', py ''+i\<newline>'', py ''+e\<newline>'',
      py '' t\<newline>'', py ''-i\<newline>'', py ''-d\<newline>'', py ''-e\<newline>'']"
  unfolding unified_diff_def get_grouped_opcodes_def Let_def opcodes_tide_diet
  by code_simp

lemma diff_diet_tide:
  "unified_diff [[100, 10], [105, 10], [101, 10], [116, 10]]
     [[116, 10], [105, 10], [100, 10], [101, 10]] []
   = [py ''--- '', py ''+++ '', py ''@@ -1,4 +1,4 @@'', py ''+t\<newline>'', py ''+i\<newline>'', py '' d\<newline>'',
      py ''-i\<newline>'', py '' e\<newline>'', py ''-t\<newline>'']"
  unfolding unified_diff_def get_grouped_opcodes_def Let_def opcodes_diet_tide
  by code_simp

lemma compute_diff_tide_diet:
  "compute_diff (py ''t\<newline>i\<newline>d\<newline>e\<newline>'') (py ''d\<newline>i\<newline>e\<newline>t\<newline>'') = (3, 3)"
  unfolding compute_diff_def Let_def lines_tide lines_diet diff_tide_diet
  by code_simp

lemma compute_diff_diet_tide:
  "compute_diff (py ''d\<newline>i\<newline>e\<newline>t\<newline>'') (py ''t\<newline>i\<newline>d\<newline>e\<newline>'') = (2, 2)"
  unfolding compute_diff_def Let_def lines_tide lines_diet diff_diet_tide
  by code_simp

text \<open>
  Claim C3, as the spec states it, fails. The matcher takes the first longest block,
  so it pairs one line when \<^verbatim>\<open>t i d e\<close> is compared with \<^verbatim>\<open>d i e t\<close> and two lines the
  other way round: three lines are added in one direction and two deleted in the
  other.
\<close>

theorem diff_symmetry_counterexample:
  "fst (compute_diff (py ''t\<newline>i\<newline>d\<newline>e\<newline>'') (py ''d\<newline>i\<newline>e\<newline>t\<newline>'')) = 3
   \<and> snd (compute_diff (py ''d\<newline>i\<newline>e\<newline>t\<newline>'') (py ''t\<newline>i\<newline>d\<newline>e\<newline>'')) = 2
   \<and> fst (compute_diff (py ''t\<newline>i\<newline>d\<newline>e\<newline>'') (py ''d\<newline>i\<newline>e\<newline>t\<newline>''))
       \<noteq> snd (compute_diff (py ''d\<newline>i\<newline>e\<newline>t\<newline>'') (py ''t\<newline>i\<newline>d\<newline>e\<newline>''))"
  by (simp add: compute_diff_tide_diet compute_diff_diet_tide)

text \<open>
  A line of the new text that begins with \<^verbatim>\<open>++\<close> is printed as \<^verbatim>\<open>+++...\<close> and taken for
  the header, and a line of the old text that begins with \<^verbatim>\<open>--\<close> likewise; such lines
  are not counted. The amended claim leaves them aside.
\<close>

lemma double_plus_line_not_counted:
  "compute_diff [] (py ''++\<newline>'') = (0, 0) \<and> compute_diff (py ''++\<newline>'') [] = (0, 1)"
proof -
  have l: "splitlines (py ''++\<newline>'') = [[43, 43, 10]]" "splitlines [] = []"
    by (simp_all add: splitlines_def py_def is_linebreak_def)
  have b1: "matching_loop [] [[43, 43, 10 :: nat]] (chain_b [[43, 43, 10]]) [(0, 0, 0, 1)] [] = []"
    by code_simp
  have b2: "matching_loop [[43, 43, 10 :: nat]] [] (chain_b []) [(0, 1, 0, 0)] [] = []"
    by code_simp
  have o1: "get_opcodes [] [[43, 43, 10 :: nat]] = [(Insert, 0, 0, 0, 1)]"
    unfolding get_opcodes_def get_matching_blocks_def Let_def using b1 by simp
  have o2: "get_opcodes [[43, 43, 10 :: nat]] [] = [(Delete, 0, 1, 0, 0)]"
    unfolding get_opcodes_def get_matching_blocks_def Let_def using b2 by simp
  have d1: "unified_diff [] [[43, 43, 10]] []
            = [py ''--- '', py ''+++ '', py ''@@ -0,0 +1 @@'', py ''+++\<newline>'']"
    unfolding unified_diff_def get_grouped_opcodes_def Let_def o1 by code_simp
  have d2: "unified_diff [[43, 43, 10]] [] []
            = [py ''--- '', py ''+++ '', py ''@@ -1 +0,0 @@'', py ''-++\<newline>'']"
    unfolding unified_diff_def get_grouped_opcodes_def Let_def o2 by code_simp
  have "compute_diff [] (py ''++\<newline>'') = (0, 0)"
    unfolding compute_diff_def Let_def l d1 by code_simp
  moreover have "compute_diff (py ''++\<newline>'') [] = (0, 1)"
    unfolding compute_diff_def Let_def l d2 by code_simp
  ultimately show ?thesis by simp
qed

text \<open>
  Claim C3, amended. For texts none of whose lines begins with \<^verbatim>\<open>++\<close> or \<^verbatim>\<open>--\<close>, the net
  line change is antisymmetric: lines added minus lines deleted from A to B equals
  lines deleted minus lines added from B to A, and both equal the number of lines of
  B minus the number of lines of A.
\<close>

theorem diff_net_change_antisymmetric:
  assumes "plain_lines A" and "plain_lines B"
  shows "fst (compute_diff A B) - snd (compute_diff A B)
           = snd (compute_diff B A) - fst (compute_diff B A)
         \<and> fst (compute_diff A B) - snd (compute_diff A B)
           = int (length (splitlines B)) - int (length (splitlines A))"
  using compute_diff_balance[OF assms] compute_diff_balance[OF assms(2,1)] by simp

theorem diff_net_change_antisymmetric_witness:
  "plain_lines (py ''a\<newline>b\<newline>c\<newline>'') \<and> plain_lines (py ''a\<newline>x\<newline>c\<newline>d\<newline>'')
   \<and> compute_diff (py ''a\<newline>b\<newline>c\<newline>'') (py ''a\<newline>x\<newline>c\<newline>d\<newline>'') = (2, 1)
   \<and> snd (compute_diff (py ''a\<newline>x\<newline>c\<newline>d\<newline>'') (py ''a\<newline>b\<newline>c\<newline>''))
       - fst (compute_diff (py ''a\<newline>x\<newline>c\<newline>d\<newline>'') (py ''a\<newline>b\<newline>c\<newline>'')) = 1"
proof -
  have a: "plain_lines (py ''a\<newline>b\<newline>c\<newline>'')"
    unfolding plain_lines_def old_lines_abc by (simp add: startswith_def py_def)
  have b: "plain_lines (py ''a\<newline>x\<newline>c\<newline>d\<newline>'')"
    unfolding plain_lines_def new_lines_axcd by (simp add: startswith_def py_def)
  from diff_net_change_antisymmetric[OF a b] a b show ?thesis
    by (simp add: compute_diff_abc_axcd)
qed

subsection \<open>Record-store failure\<close>




subsection \<open>The guard\<close>

text \<open>
  Claim C5 at a failing input: \<^verbatim>\<open>/w/notes.txt\<close> is in \<open>processing\<close>. The modification
  event for it is dropped and leaves the state as it is; the creation event for it is
  not: \<^verbatim>\<open>_process_creation\<close> never looks at \<open>processing\<close>, commits a \<^verbatim>\<open>created\<close> row and
  overwrites the shadow.
\<close>

theorem creation_bypasses_guard:
  "notes_txt \<in> processing guarded_state
   \<and> on_modified example_digest (modified notes_txt) guarded_state = (Inr (), guarded_state)
   \<and> on_created example_digest (created notes_txt) guarded_state =
       (Inr (), guarded_state
          \<lparr>rows := [\<lparr>timestamp = py ''2024-05-01T12:00:00'', file_path = notes_txt,
                     event_type = py ''created'', size_before = None, size_after = Some 8,
                     size_change = None, lines_added = 0, lines_deleted = 0,
                     lines_changed = 0\<rparr>],
           shadows := [example_digest notes_txt \<mapsto> text_file 8 (py ''a\<newline>x\<newline>c\<newline>d\<newline>'')],
           metas := [example_digest notes_txt \<mapsto> (notes_txt, 8)]\<rparr>)"
proof -
  have f: "notes_txt \<in> processing guarded_state"
    "files guarded_state notes_txt = Some (text_file 8 (py ''a\<newline>x\<newline>c\<newline>d\<newline>''))"
    "execute_fault guarded_state = None" "commit_fault guarded_state = None"
    "shadow_fault guarded_state = None"
    by (simp_all add: guarded_state_def tracked_facts)
  have sp: "should_process notes_txt guarded_state = Inr True"
    by (rule should_process_notes) (rule f(2))
  have m: "on_modified example_digest (modified notes_txt) guarded_state = (Inr (), guarded_state)"
    using f(1) by (simp add: on_modified_def modified_def process_modification_def)
  have c: "on_created example_digest (created notes_txt) guarded_state =
           process_creation example_digest notes_txt guarded_state"
    by (simp add: on_created_def created_def)
  show ?thesis
    unfolding c creation_step[OF sp f(2) encodable_notes f(3,4,5)]
    using f(1) m
    by (simp add: guarded_state_def tracked_state_def initial_state_def text_file_def)
qed

text \<open>
  Claim C6. A modification pass that finds the path unguarded leaves it unguarded,
  whatever the pass did (recorded, filtered the path out, or raised); the set
  \<open>processing\<close> is then the same as before. A modification event for a path that is
  guarded returns at once and changes nothing: no row, no shadow.
\<close>

theorem guard_released_on_every_exit:
  "(path \<notin> processing s \<longrightarrow>
      path \<notin> processing (snd (process_modification digest path s))
      \<and> processing (snd (process_modification digest path s)) = processing s)
   \<and> (path \<in> processing s \<longrightarrow> process_modification digest path s = (Inr (), s))"
proof -
  have "processing (snd (process_modification digest path s)) = processing s"
    if "path \<notin> processing s"
  proof -
    have "processing (snd (process_modification digest path s))
          = processing (snd (modification_body digest path
                               (s\<lparr>processing := insert path (processing s)\<rparr>))) - {path}"
      using that by (simp add: process_modification_def case_prod_unfold)
    then show ?thesis using that by simp
  qed
  then show ?thesis by (auto simp: process_modification_def)
qed

theorem guard_released_on_every_exit_witness:
  "notes_txt \<notin> processing tracked_state
   \<and> notes_txt \<notin> processing (snd (process_modification example_digest notes_txt tracked_state))
   \<and> notes_txt \<notin> processing db_down_state
   \<and> fst (process_modification example_digest notes_txt db_down_state) = Inl OperationalError
   \<and> notes_txt \<notin> processing (snd (process_modification example_digest notes_txt db_down_state))
   \<and> odd_name \<notin> processing odd_state
   \<and> fst (process_modification example_digest odd_name odd_state) = Inl UnicodeEncodeError
   \<and> odd_name \<notin> processing (snd (process_modification example_digest odd_name odd_state))
   \<and> git_config \<notin> processing git_state
   \<and> git_config \<notin> processing (snd (process_modification example_digest git_config git_state))
   \<and> notes_txt \<in> processing guarded_state
   \<and> process_modification example_digest notes_txt guarded_state = (Inr (), guarded_state)"
proof -
  have a: "notes_txt \<notin> processing tracked_state" by (simp add: tracked_facts)
  have b: "notes_txt \<notin> processing db_down_state" by (simp add: db_down_state_def tracked_facts)
  have c: "git_config \<notin> processing git_state" by (simp add: git_state_def initial_state_def)
  have d: "notes_txt \<in> processing guarded_state" by (simp add: guarded_state_def)
  have o: "odd_name \<notin> processing odd_state" by (simp add: odd_state_def initial_state_def)
  have f: "files db_down_state notes_txt = Some (text_file 8 (py ''a\<newline>x\<newline>c\<newline>d\<newline>''))"
    "get_shadow_content example_digest notes_txt db_down_state = Some (py ''a\<newline>b\<newline>c\<newline>'')"
    "write_fault db_down_state = Some OperationalError"
    by (simp_all add: db_down_state_def tracked_facts tracked_content write_fault_def)
  have e: "fst (process_modification example_digest notes_txt db_down_state) = Inl OperationalError"
    using modification_record_failure[OF b should_process_notes[OF f(1)] f(1) text_file_read f(2,3)]
    by auto
  have u: "fst (process_modification example_digest odd_name odd_state) = Inl UnicodeEncodeError"
    using unencodable_modification_raises[OF o should_process_odd odd_facts(1) text_file_read odd_facts(2)]
    by simp
  show ?thesis
    using guard_released_on_every_exit[of notes_txt tracked_state example_digest]
      guard_released_on_every_exit[of notes_txt db_down_state example_digest]
      guard_released_on_every_exit[of odd_name odd_state example_digest]
      guard_released_on_every_exit[of git_config git_state example_digest]
      guard_released_on_every_exit[of notes_txt guarded_state example_digest]
      a b c d o e u
    by simp
qed

subsection \<open>First observation\<close>

text \<open>Unless \<^verbatim>\<open>has_shadow\<close> returns true no row is written, whatever else happens to the event.\<close>

lemma no_shadow_no_row:
  assumes "has_shadow digest path s \<noteq> Inr True"
  shows "rows (snd (process_modification digest path s)) = rows s
         \<and> pending (snd (process_modification digest path s)) = pending s"
proof (cases "path \<in> processing s")
  case True
  then show ?thesis by (simp add: process_modification_def)
next
  case False
  let ?s = "s\<lparr>processing := insert path (processing s)\<rparr>"
  have h: "has_shadow digest path ?s \<noteq> Inr True" using assms by simp
  have "rows (snd (modification_body digest path ?s)) = rows ?s
        \<and> pending (snd (modification_body digest path ?s)) = pending ?s"
    using h by (auto simp: modification_body_def update_shadow_def split: sum.splits option.splits)
  then show ?thesis using False by (simp add: process_modification_def case_prod_unfold)
qed




subsection \<open>The exclusion filter\<close>

text \<open>
  Claim C8. If one of the segments between the slashes of an event's path is
  \<^verbatim>\<open>.git\<close>, the creation handler and the modification handler both return normally
  and leave the state as it is, whatever the files contain: no row and no shadow.
\<close>

theorem version_control_paths_are_never_recorded:
  assumes "py ''.git'' \<in> set (split_on 47 (src_path ev))"
  shows "on_created digest ev s = (Inr (), s) \<and> on_modified digest ev s = (Inr (), s)"
proof -
  have "py ''.git'' \<noteq> [] \<and> py ''.git'' \<noteq> py ''.''" by (simp add: py_def)
  with assms have "py ''.git'' \<in> set (path_parts (src_path ev))"
    by (simp add: path_parts_def)
  moreover have "part_rejected (py ''.git'')"
    by (simp add: part_rejected_def excluded_def)
  ultimately have "should_process (src_path ev) s = Inr False"
    by (rule rejected_part_filters)
  then show ?thesis by (rule filtered_events)
qed

theorem version_control_paths_are_never_recorded_witness:
  "py ''.git'' \<in> set (split_on 47 (src_path (modified git_config)))
   \<and> files git_state git_config = Some (text_file 5 (py ''[core''))
   \<and> on_created example_digest (modified git_config) git_state = (Inr (), git_state)
   \<and> on_modified example_digest (modified git_config) git_state = (Inr (), git_state)"
proof -
  have a: "py ''.git'' \<in> set (split_on 47 (src_path (modified git_config)))"
    by (simp add: modified_def git_config_def py_def)
  have b: "files git_state git_config = Some (text_file 5 (py ''[core''))"
    by (simp add: git_state_def)
  from version_control_paths_are_never_recorded[OF a, of example_digest git_state] a b
  show ?thesis by simp
qed

text \<open>
  Claim C10. The filter looks at every part of the path the event carries, the parts
  of the watched directory included. If a part of the watched directory begins with a
  dot, every path below it is rejected by the filter, and its creation and
  modification events leave the state as it is.
\<close>

theorem hidden_component_anywhere_rejects:
  assumes "seg \<in> set (path_parts watch_root)" "startswith seg (py ''.'')"
    and "src_path ev = watch_root @ py ''/'' @ rel"
  shows "should_process (src_path ev) s = Inr False
         \<and> on_created digest ev s = (Inr (), s) \<and> on_modified digest ev s = (Inr (), s)"
proof -
  have "seg \<notin> set (path_root watch_root)"
    using assms(2) by (auto simp: path_root_def startswith_def py_def split: if_splits)
  with assms(1) have "seg \<in> set (filter (\<lambda>x. x \<noteq> [] \<and> x \<noteq> py ''.'') (split_on 47 watch_root))"
    by (auto simp: path_parts_def)
  moreover have "split_on 47 (src_path ev) = split_on 47 watch_root @ split_on 47 rel"
    using split_on_append[of 47 watch_root rel] assms(3) by (simp add: py_def)
  ultimately have "seg \<in> set (path_parts (src_path ev))"
    by (auto simp: path_parts_def)
  moreover have "part_rejected seg" using assms(2) by (simp add: part_rejected_def)
  ultimately have f: "should_process (src_path ev) s = Inr False"
    by (rule rejected_part_filters)
  with filtered_events[OF f] show ?thesis by simp
qed

theorem hidden_component_anywhere_rejects_witness:
  "py ''.config'' \<in> set (path_parts hidden_root) \<and> startswith (py ''.config'') (py ''.'')
   \<and> src_path (created main_py) = hidden_root @ py ''/'' @ py ''src/main.py''
   \<and> files hidden_state main_py = Some (text_file 3 (py ''x=1''))
   \<and> should_process main_py hidden_state = Inr False
   \<and> on_created example_digest (created main_py) hidden_state = (Inr (), hidden_state)
   \<and> on_modified example_digest (created main_py) hidden_state = (Inr (), hidden_state)"
proof -
  have a: "py ''.config'' \<in> set (path_parts hidden_root)"
    by (simp add: hidden_root_def path_parts_def path_root_def startswith_def py_def)
  have b: "startswith (py ''.config'') (py ''.'')"
    by (simp add: startswith_def py_def)
  have c: "src_path (created main_py) = hidden_root @ py ''/'' @ py ''src/main.py''"
    by (simp add: created_def main_py_def)
  have d: "files hidden_state main_py = Some (text_file 3 (py ''x=1''))"
    by (simp add: hidden_state_def)
  have e: "src_path (created main_py) = main_py" by (simp add: created_def)
  from hidden_component_anywhere_rejects[OF a b c, of hidden_state example_digest] a b c d
  show ?thesis unfolding e by simp
qed

subsection \<open>Creation events\<close>

text \<open>
  Claim C9. A creation event for a path that passes the filter and whose name encodes
  as UTF-8, as the name of every path with a shadow does, is handled the same way
  whether or not the path already has a shadow: with the database and the shadow
  directory accepting writes, it commits a \<^verbatim>\<open>created\<close> row without \<open>size_before\<close> and
  with all line counts zero, after the rows committed before and any an earlier failed
  commit left in the open transaction, and stores the file as the shadow of the path
  in place of any earlier one. A second creation event for the same path commits a
  second such row.
\<close>

theorem creation_ignores_existing_snapshot:
  assumes "should_process path s = Inr True"
    and "files s path = Some node"
    and "encodable path"
    and "execute_fault s = None" and "commit_fault s = None" and "shadow_fault s = None"
  shows "on_created digest (created path) s =
           (Inr (), s\<lparr>rows := rows s @ pending s @
                        [\<lparr>timestamp = clock s, file_path = path, event_type = py ''created'',
                          size_before = None, size_after = Some (st_size node), size_change = None,
                          lines_added = 0, lines_deleted = 0, lines_changed = 0\<rparr>],
                      pending := [],
                      shadows := (shadows s)(digest path \<mapsto> node),
                      metas := (metas s)(digest path \<mapsto> (path, st_size node))\<rparr>)
         \<and> rows (snd (on_created digest (created path)
                        (snd (on_created digest (created path) s)))) =
             rows s @ pending s @
               [\<lparr>timestamp = clock s, file_path = path, event_type = py ''created'',
                 size_before = None, size_after = Some (st_size node), size_change = None,
                 lines_added = 0, lines_deleted = 0, lines_changed = 0\<rparr>,
                \<lparr>timestamp = clock s, file_path = path, event_type = py ''created'',
                 size_before = None, size_after = Some (st_size node), size_change = None,
                 lines_added = 0, lines_deleted = 0, lines_changed = 0\<rparr>]"
proof -
  let ?row = "\<lparr>timestamp = clock s, file_path = path, event_type = py ''created'',
                size_before = None, size_after = Some (st_size node), size_change = None,
                lines_added = 0, lines_deleted = 0, lines_changed = 0\<rparr>"
  let ?s1 = "s\<lparr>rows := rows s @ pending s @ [?row],
               pending := [],
               shadows := (shadows s)(digest path \<mapsto> node),
               metas := (metas s)(digest path \<mapsto> (path, st_size node))\<rparr>"
  have oc: "on_created digest (created path) t = process_creation digest path t" for t
    by (simp add: on_created_def created_def)
  have one: "process_creation digest path s = (Inr (), ?s1)"
    by (rule creation_step[OF assms])
  have sp: "should_process path ?s1 = Inr True"
    using assms(1) should_process_files[of ?s1 s path] by simp
  have two: "rows (snd (process_creation digest path ?s1)) = rows s @ pending s @ [?row, ?row]"
    using creation_step[OF sp, of node digest] assms(2,3,4,5,6) by simp
  show ?thesis using one two by (simp add: oc)
qed

theorem creation_ignores_existing_snapshot_witness:
  "should_process notes_txt tracked_state = Inr True
   \<and> has_shadow example_digest notes_txt tracked_state = Inr True
   \<and> encodable notes_txt
   \<and> execute_fault tracked_state = None \<and> commit_fault tracked_state = None
   \<and> shadow_fault tracked_state = None
   \<and> rows (snd (on_created example_digest (created notes_txt) tracked_state)) =
       [\<lparr>timestamp = py ''2024-05-01T12:00:00'', file_path = notes_txt,
         event_type = py ''created'', size_before = None, size_after = Some 8,
         size_change = None, lines_added = 0, lines_deleted = 0, lines_changed = 0\<rparr>]
   \<and> shadows (snd (on_created example_digest (created notes_txt) tracked_state))
        (example_digest notes_txt) = Some (text_file 8 (py ''a\<newline>x\<newline>c\<newline>d\<newline>''))
   \<and> length (rows (snd (on_created example_digest (created notes_txt)
                (snd (on_created example_digest (created notes_txt) tracked_state))))) = 2"
proof -
  have sp: "should_process notes_txt tracked_state = Inr True"
    by (rule should_process_notes) (rule tracked_facts)
  have hs: "has_shadow example_digest notes_txt tracked_state = Inr True"
    by (simp add: has_shadow_def get_shadow_path_def encodable_notes tracked_facts)
  have ck: "clock tracked_state = py ''2024-05-01T12:00:00''"
    by (simp add: tracked_state_def initial_state_def)
  note t = creation_ignores_existing_snapshot[OF sp tracked_facts(2) encodable_notes
      tracked_facts(4,5,6), of example_digest]
  have one: "on_created example_digest (created notes_txt) tracked_state =
      (Inr (), tracked_state
         \<lparr>rows := [\<lparr>timestamp = py ''2024-05-01T12:00:00'', file_path = notes_txt,
                    event_type = py ''created'', size_before = None, size_after = Some 8,
                    size_change = None, lines_added = 0, lines_deleted = 0, lines_changed = 0\<rparr>],
          pending := [],
          shadows := (shadows tracked_state)
             (example_digest notes_txt \<mapsto> text_file 8 (py ''a\<newline>x\<newline>c\<newline>d\<newline>'')),
          metas := (metas tracked_state)(example_digest notes_txt \<mapsto> (notes_txt, 8))\<rparr>)"
    using t[THEN conjunct1] by (simp add: tracked_facts ck text_file_def)
  have r: "rows (snd (on_created example_digest (created notes_txt) tracked_state)) =
       [\<lparr>timestamp = py ''2024-05-01T12:00:00'', file_path = notes_txt,
         event_type = py ''created'', size_before = None, size_after = Some 8,
         size_change = None, lines_added = 0, lines_deleted = 0, lines_changed = 0\<rparr>]"
    by (simp add: one)
  have sh: "shadows (snd (on_created example_digest (created notes_txt) tracked_state))
        (example_digest notes_txt) = Some (text_file 8 (py ''a\<newline>x\<newline>c\<newline>d\<newline>''))"
    by (simp add: one)
  have two: "length (rows (snd (on_created example_digest (created notes_txt)
                (snd (on_created example_digest (created notes_txt) tracked_state))))) = 2"
    using t[THEN conjunct2] by (simp add: tracked_facts)
  show ?thesis using sp hs encodable_notes tracked_facts(4,5,6) r sh two by blast
qed

end
